theory Spec2Isabelle
  imports Complex_Main
begin

section \<open>Text wrapping: \<open>textwrap.wrap\<close> as called by \<open>build_pdf\<close>\<close>

text \<open>
  \<open>build_pdf\<close> wraps every free-text field with \<open>wrap(text, 100)\<close> from the Python
  standard library (\<open>Lib/textwrap.py\<close>, CPython 3.11), with all options at their defaults:
  \<open>expand_tabs\<close>, \<open>replace_whitespace\<close>, \<open>drop_whitespace\<close>, \<open>break_long_words\<close> and
  \<open>break_on_hyphens\<close> on, \<open>fix_sentence_endings\<close> off, no indents, \<open>tabsize = 8\<close>,
  \<open>max_lines = None\<close>.  The definitions below follow that module method by method.

  A Python \<open>str\<close> is modelled as a \<open>string\<close>: a list of characters with code points
  below 256.  \<open>len\<close> is \<open>length\<close>.
\<close>

datatype error = ValueError

definition in_ranges :: "(nat \<times> nat) list \<Rightarrow> char \<Rightarrow> bool" where
  "in_ranges rs c = list_ex (\<lambda>(lo, hi). lo \<le> of_char c \<and> (of_char c :: nat) \<le> hi) rs"

text \<open>\<open>_whitespace = '\t\n\x0b\x0c\r '\<close>.\<close>

definition is_ws :: "char \<Rightarrow> bool" where
  "is_ws c = in_ranges [(9, 13), (32, 32)] c"

text \<open>The characters \<open>str.strip()\<close> removes (\<open>str.isspace\<close>), below code point 256.\<close>

definition py_isspace :: "char \<Rightarrow> bool" where
  "py_isspace c = in_ranges [(9, 13), (28, 32), (133, 133), (160, 160)] c"

text \<open>The regular-expression classes \<open>\w\<close>, \<open>[^\d\W]\<close> and \<open>[\w!"'&.,?]\<close>, below code point 256.\<close>

definition re_letter :: "char \<Rightarrow> bool" where
  "re_letter c = in_ranges [(65, 90), (95, 95), (97, 122), (170, 170), (178, 179), (181, 181),
     (185, 186), (188, 190), (192, 214), (216, 246), (248, 255)] c"

definition re_word :: "char \<Rightarrow> bool" where
  "re_word c = (in_ranges [(48, 57)] c \<or> re_letter c)"

definition word_punct :: "char \<Rightarrow> bool" where
  "word_punct c = (re_word c \<or> in_ranges [(33, 34), (38, 39), (44, 44), (46, 46), (63, 63)] c)"

definition is_hyphen :: "char \<Rightarrow> bool" where
  "is_hyphen c = (c = CHR ''-'')"

subsection \<open>\<open>_munge_whitespace\<close>\<close>

text \<open>\<open>str.expandtabs(8)\<close>: the column counter restarts after a line feed or carriage return.\<close>

fun expandtabs_from :: "nat \<Rightarrow> string \<Rightarrow> string" where
  "expandtabs_from j [] = []"
| "expandtabs_from j (c # cs) =
     (if c = CHR 0x09
      then (let incr = 8 - j mod 8 in replicate incr CHR '' '' @ expandtabs_from (j + incr) cs)
      else c # expandtabs_from (if c = CHR 0x0A \<or> c = CHR 0x0D then 0 else j + 1) cs)"

definition munge_whitespace :: "string \<Rightarrow> string" where
  "munge_whitespace text = map (\<lambda>c. if is_ws c then CHR '' '' else c) (expandtabs_from 0 text)"

subsection \<open>\<open>_split\<close>: the chunks matched by \<open>wordsep_re\<close>\<close>

text \<open>
  \<open>wordsep_re.split\<close> matches, at every position, one of three alternatives tried in this order:
  a run of whitespace; an em-dash \<open>-{2,}\<close> preceded by a \<open>word_punct\<close> character and followed by
  a \<open>\w\<close>; a word \<open>[^ws]+?\<close> taken lazily up to the first place where it may end.  Some
  alternative matches wherever text is left, so the pieces between matches are empty and
  \<open>[c for c in chunks if c]\<close> keeps exactly the matches.  The functions take the text before
  the position, reversed (\<open>bef\<close>), for the look-behinds, and the text from the position on.
\<close>

text \<open>\<open>(?=-{2,}\w)\<close>: the greedy run can only be followed by \<open>\w\<close> when it is the whole run.\<close>

definition emdash_ahead :: "string \<Rightarrow> bool" where
  "emdash_ahead rest =
     (let n = length (takeWhile is_hyphen rest)
      in 2 \<le> n \<and> (case drop n rest of [] \<Rightarrow> False | c # _ \<Rightarrow> re_word c))"

text \<open>\<open>(?<=[\w!"'&.,?])\<close>\<close>

definition preceded_by_wp :: "string \<Rightarrow> bool" where
  "preceded_by_wp bef = (case bef of [] \<Rightarrow> False | c # _ \<Rightarrow> word_punct c)"

text \<open>
  The look-behinds of the hyphenated-word ending, read just after its hyphen:
  \<open>(?<=lt{2}-)\<close> or \<open>(?<=lt-lt-)\<close>; \<open>bef\<close> is the text before that hyphen, reversed.
\<close>

definition hyphen_lookbehind :: "string \<Rightarrow> bool" where
  "hyphen_lookbehind bef =
     (case bef of
        a # b # more \<Rightarrow>
          re_letter a \<and> (re_letter b \<or> (is_hyphen b \<and> (case more of [] \<Rightarrow> False | c # _ \<Rightarrow> re_letter c)))
      | _ \<Rightarrow> False)"

text \<open>\<open>(?= lt -? lt)\<close>, read just after the hyphen.\<close>

definition hyphen_lookahead :: "string \<Rightarrow> bool" where
  "hyphen_lookahead r =
     (case r of
        x # y # more \<Rightarrow>
          re_letter x \<and> (if is_hyphen y then (case more of [] \<Rightarrow> False | z # _ \<Rightarrow> re_letter z)
                         else re_letter y)
      | _ \<Rightarrow> False)"

definition hyphen_break :: "string \<Rightarrow> string \<Rightarrow> bool" where
  "hyphen_break bef rest =
     (case rest of [] \<Rightarrow> False
      | c # r \<Rightarrow> is_hyphen c \<and> hyphen_lookbehind bef \<and> hyphen_lookahead r)"

text \<open>
  The number of characters a word takes after the characters already in \<open>bef\<close>: the lazy
  \<open>[^ws]+?\<close> stops at the first position where an ending matches: the hyphen of a hyphenated
  word (which the chunk keeps), then whitespace or the end of the text, then an em-dash.
\<close>

fun word_len :: "string \<Rightarrow> string \<Rightarrow> nat" where
  "word_len bef [] = 0"
| "word_len bef (c # r) =
     (if hyphen_break bef (c # r) then 1
      else if is_ws c then 0
      else if preceded_by_wp bef \<and> emdash_ahead (c # r) then 0
      else 1 + word_len (c # bef) r)"

definition chunk_len :: "string \<Rightarrow> string \<Rightarrow> nat" where
  "chunk_len bef rest =
     (case rest of [] \<Rightarrow> 0
      | c # r \<Rightarrow>
          if is_ws c then length (takeWhile is_ws rest)
          else if preceded_by_wp bef \<and> emdash_ahead rest then length (takeWhile is_hyphen rest)
          else 1 + word_len (c # bef) r)"

lemma chunk_len_pos: "rest \<noteq> [] \<Longrightarrow> 0 < chunk_len bef rest"
  by (cases rest) (auto simp: chunk_len_def emdash_ahead_def Let_def)

function split_from :: "string \<Rightarrow> string \<Rightarrow> string list" where
  "split_from bef rest =
     (if rest = [] then []
      else (let n = chunk_len bef rest
            in take n rest # split_from (rev (take n rest) @ bef) (drop n rest)))"
  by pat_completeness auto
termination
proof (relation "measure (\<lambda>(bef, rest). length rest)")
  show "wf (measure (\<lambda>(bef, rest). length rest))" by simp
next
  fix bef rest :: string and n
  assume "rest \<noteq> []" "n = chunk_len bef rest"
  then show "((rev (take n rest) @ bef, drop n rest), (bef, rest)) \<in> measure (\<lambda>(bef, rest). length rest)"
    using chunk_len_pos [of rest bef] by simp
qed

declare split_from.simps [simp del]

definition split_chunks :: "string \<Rightarrow> string list" where
  "split_chunks text = filter (\<lambda>c. c \<noteq> []) (split_from [] (munge_whitespace text))"

subsection \<open>\<open>_handle_long_word\<close> and \<open>_wrap_chunks\<close>\<close>

text \<open>\<open>chunk.strip() == ''\<close>\<close>

definition is_blank :: "string \<Rightarrow> bool" where
  "is_blank chunk = list_all py_isspace chunk"

text \<open>\<open>chunk.rfind('-', 0, n)\<close>, with \<open>None\<close> for Python's \<open>-1\<close>.\<close>

definition rfind_hyphen :: "string \<Rightarrow> nat \<Rightarrow> nat option" where
  "rfind_hyphen chunk n =
     (let pre = take n chunk; k = length (takeWhile (\<lambda>c. \<not> is_hyphen c) (rev pre))
      in if k = length pre then None else Some (length pre - 1 - k))"

text \<open>
  Python reverses the chunk list and pops from its end; here the stack is the list in text
  order and its head is the next chunk.  With \<open>break_long_words\<close> on, the long chunk gives the
  line as much as fits, preferably up to its last hyphen that has a non-hyphen before it.
\<close>

definition handle_long_word ::
  "string list \<Rightarrow> string list \<Rightarrow> int \<Rightarrow> int \<Rightarrow> string list \<times> string list" where
  "handle_long_word chunks cur_line cur_len width =
     (case chunks of [] \<Rightarrow> (chunks, cur_line)
      | chunk # rest \<Rightarrow>
          (let space_left = (if width < 1 then 1 else width - cur_len);
               end = (if int (length chunk) > space_left
                      then (case rfind_hyphen chunk (nat space_left) of
                              None \<Rightarrow> space_left
                            | Some hyphen \<Rightarrow>
                                if 0 < hyphen \<and> list_ex (\<lambda>c. \<not> is_hyphen c) (take hyphen chunk)
                                then int hyphen + 1 else space_left)
                      else space_left)
           in (drop (nat end) chunk # rest, cur_line @ [take (nat end) chunk])))"

text \<open>The inner \<open>while chunks:\<close> loop: chunks are moved to the line while they fit.\<close>

fun fill_line :: "int \<Rightarrow> string list \<Rightarrow> string list \<Rightarrow> int \<Rightarrow> string list \<times> string list \<times> int" where
  "fill_line width [] cur_line cur_len = ([], cur_line, cur_len)"
| "fill_line width (c # cs) cur_line cur_len =
     (if cur_len + int (length c) \<le> width
      then fill_line width cs (cur_line @ [c]) (cur_len + int (length c))
      else (c # cs, cur_line, cur_len))"

text \<open>One pass of the outer \<open>while chunks:\<close> loop: the chunks left and the line built, if any.\<close>

definition wrap_line :: "int \<Rightarrow> string list \<Rightarrow> bool \<Rightarrow> string list \<times> string list" where
  "wrap_line width chunks started =
     (let chunks1 = (if is_blank (hd chunks) \<and> started then tl chunks else chunks);
          (chunks2, cur_line, cur_len) = fill_line width chunks1 [] 0;
          (chunks3, cur_line3) =
             (if chunks2 \<noteq> [] \<and> int (length (hd chunks2)) > width
              then handle_long_word chunks2 cur_line cur_len width
              else (chunks2, cur_line));
          cur_line4 = (if cur_line3 \<noteq> [] \<and> is_blank (last cur_line3)
                       then butlast cur_line3 else cur_line3)
      in (chunks3, cur_line4))"

definition chunks_size :: "string list \<Rightarrow> nat" where
  "chunks_size chunks = length chunks + length (concat chunks)"

text \<open>
  \<open>_wrap_chunks\<close>.  The source raises \<open>ValueError\<close> for \<open>width <= 0\<close> before its loop is
  entered, so the loop only ever runs with \<open>width \<ge> 1\<close>; the test \<open>width < 1\<close> in \<open>wrap_loop\<close>
  repeats that guard.  \<open>lines\<close> is the list of lines produced so far.
\<close>

lemma fill_line_size:
  "fill_line width cs cur_line cur_len = (cs', cur_line', cur_len') \<Longrightarrow>
     chunks_size cs' \<le> chunks_size cs \<and>
     (chunks_size cs' = chunks_size cs \<longrightarrow> cs' = cs \<and> cur_len' = cur_len)"
proof (induction cs arbitrary: cur_line cur_len)
  case Nil
  then show ?case by simp
next
  case (Cons c cs)
  show ?case
  proof (cases "cur_len + int (length c) \<le> width")
    case True
    with Cons.prems have "fill_line width cs (cur_line @ [c]) (cur_len + int (length c)) = (cs', cur_line', cur_len')"
      by simp
    from Cons.IH [OF this] show ?thesis by (auto simp: chunks_size_def)
  next
    case False
    with Cons.prems show ?thesis by simp
  qed
qed

lemma fill_line_stops:
  "fill_line width cs cur_line cur_len = (c' # cs', cur_line', cur_len') \<Longrightarrow>
     width < cur_len' + int (length c')"
  by (induction cs arbitrary: cur_line cur_len) (auto split: if_splits)

lemma fill_line_len:
  "fill_line width cs cur_line cur_len = (cs', cur_line', cur_len') \<Longrightarrow> cur_len \<le> width \<Longrightarrow>
     cur_len' \<le> width \<and> cur_len \<le> cur_len' \<and>
     cur_len' - cur_len = int (length (concat cur_line')) - int (length (concat cur_line))"
proof (induction cs arbitrary: cur_line cur_len)
  case Nil
  then show ?case by simp
next
  case (Cons c cs)
  show ?case
  proof (cases "cur_len + int (length c) \<le> width")
    case True
    with Cons.prems have "fill_line width cs (cur_line @ [c]) (cur_len + int (length c)) = (cs', cur_line', cur_len')"
      by simp
    from Cons.IH [OF this True] show ?thesis by simp
  next
    case False
    with Cons.prems show ?thesis by simp
  qed
qed

lemma rfind_hyphen_less:
  assumes "rfind_hyphen chunk n = Some k"
  shows "k < n \<and> k < length chunk"
proof -
  let ?pre = "take n chunk"
  let ?t = "length (takeWhile (\<lambda>c. \<not> is_hyphen c) (rev ?pre))"
  have "?t \<le> length ?pre" using length_takeWhile_le [of _ "rev ?pre"] by simp
  moreover from assms have "?t \<noteq> length ?pre" and "k = length ?pre - 1 - ?t"
    by (auto simp: rfind_hyphen_def Let_def split: if_splits)
  ultimately have "k < length ?pre" by linarith
  then show ?thesis by simp
qed

lemma handle_long_word_end:
  assumes "handle_long_word (chunk # rest) cur_line cur_len width = (chunks', cur_line')"
    and "1 \<le> width" and "0 \<le> cur_len" and "cur_len \<le> width" and "width < int (length chunk)"
  shows "\<exists>e. chunks' = drop e chunk # rest \<and> cur_line' = cur_line @ [take e chunk] \<and>
           int e \<le> width - cur_len \<and> (cur_len < width \<longrightarrow> 0 < e)"
proof (cases "rfind_hyphen chunk (nat (width - cur_len))")
  case None
  with assms show ?thesis
    by (intro exI [of _ "nat (width - cur_len)"]) (auto simp: handle_long_word_def Let_def)
next
  case (Some k)
  from rfind_hyphen_less [OF Some] have k: "int k < width - cur_len" by linarith
  show ?thesis
  proof (cases "0 < k \<and> list_ex (\<lambda>c. \<not> is_hyphen c) (take k chunk)")
    case True
    with assms Some k show ?thesis
      by (intro exI [of _ "Suc k"]) (auto simp: handle_long_word_def Let_def nat_add_distrib)
  next
    case False
    with assms Some show ?thesis
      by (intro exI [of _ "nat (width - cur_len)"]) (auto simp: handle_long_word_def Let_def)
  qed
qed

lemma wrap_line_decreases:
  assumes "chunks \<noteq> []" and "1 \<le> width"
  shows "chunks_size (fst (wrap_line width chunks started)) < chunks_size chunks"
proof -
  define chunks1 where "chunks1 = (if is_blank (hd chunks) \<and> started then tl chunks else chunks)"
  obtain chunks2 cur_line cur_len where fl: "fill_line width chunks1 [] 0 = (chunks2, cur_line, cur_len)"
    by (cases "fill_line width chunks1 [] 0") auto
  define res where "res = (if chunks2 \<noteq> [] \<and> int (length (hd chunks2)) > width
              then handle_long_word chunks2 cur_line cur_len width
              else (chunks2, cur_line))"
  have out: "fst (wrap_line width chunks started) = fst res"
    unfolding wrap_line_def chunks1_def [symmetric] Let_def fl prod.case res_def [symmetric]
    by (simp split: prod.splits)
  have c1: "chunks_size chunks1 \<le> chunks_size chunks"
    using assms(1) by (cases chunks) (auto simp: chunks1_def chunks_size_def)
  have c1': "chunks1 = chunks \<or> chunks_size chunks1 < chunks_size chunks"
    using assms(1) by (cases chunks) (auto simp: chunks1_def chunks_size_def)
  note sz = fill_line_size [OF fl]
  note ln = fill_line_len [OF fl]
  show ?thesis
  proof (cases "chunks2 \<noteq> [] \<and> int (length (hd chunks2)) > width")
    case False
    then have r: "fst res = chunks2" by (auto simp: res_def)
    show ?thesis
    proof (cases "chunks_size chunks2 = chunks_size chunks")
      case True
      have s1: "chunks_size chunks2 = chunks_size chunks1" using True sz c1 by linarith
      then have s2: "\<not> chunks_size chunks1 < chunks_size chunks" using True by linarith
      from sz s1 have eq: "chunks2 = chunks1" "cur_len = 0" by blast+
      from c1' s2 have "chunks1 = chunks" by blast
      with eq assms obtain c cs where cs: "chunks2 = c # cs" by (cases chunks2) auto
      from fill_line_stops [OF fl [unfolded cs]] have "width < cur_len + int (length c)" .
      with \<open>cur_len = 0\<close> \<open>\<not> (chunks2 \<noteq> [] \<and> int (length (hd chunks2)) > width)\<close> cs
      show ?thesis by simp
    next
      case False
      with sz c1 r out show ?thesis by simp
    qed
  next
    case True
    then obtain c cs where cs: "chunks2 = c # cs" and long: "width < int (length c)"
      by (cases chunks2) auto
    obtain chunks3 cur_line3 where h: "handle_long_word (c # cs) cur_line cur_len width = (chunks3, cur_line3)"
      by (cases "handle_long_word (c # cs) cur_line cur_len width") auto
    from ln have cl: "0 \<le> cur_len" "cur_len \<le> width" using assms(2) by auto
    from handle_long_word_end [OF h assms(2) cl long]
    obtain e where e: "chunks3 = drop e c # cs" "cur_len < width \<longrightarrow> 0 < e" by auto
    have r: "fst res = chunks3" using True cs h by (simp add: res_def)
    have le: "chunks_size chunks3 \<le> chunks_size chunks2"
      using e cs by (simp add: chunks_size_def)
    show ?thesis
    proof (cases "chunks_size chunks2 = chunks_size chunks")
      case True
      then have "chunks_size chunks2 = chunks_size chunks1" using sz c1 by linarith
      with sz have "cur_len = 0" by blast
      with e assms(2) have "0 < e" by simp
      moreover have "0 < length c" using long assms(2) by linarith
      ultimately have "chunks_size chunks3 < chunks_size chunks2"
        unfolding e(1) cs by (simp add: chunks_size_def)
      with True r out show ?thesis by simp
    next
      case False
      with sz c1 le r out show ?thesis by simp
    qed
  qed
qed

function wrap_loop :: "int \<Rightarrow> string list \<Rightarrow> string list \<Rightarrow> string list" where
  "wrap_loop width chunks lines =
     (if chunks = [] \<or> width < 1 then lines
      else (let (chunks', cur_line) = wrap_line width chunks (lines \<noteq> [])
            in wrap_loop width chunks'
                 (if cur_line \<noteq> [] then lines @ [concat cur_line] else lines)))"
  by pat_completeness auto
termination
proof (relation "measure (\<lambda>(width, chunks, lines). chunks_size chunks)")
  show "wf (measure (\<lambda>(width, chunks, lines). chunks_size chunks))" by simp
next
  fix width :: int and chunks lines :: "string list" and x chunks' cur_line
  assume "\<not> (chunks = [] \<or> width < 1)" and "x = wrap_line width chunks (lines \<noteq> [])"
    and "(chunks', cur_line) = x"
  then show "((width, chunks', if cur_line \<noteq> [] then lines @ [concat cur_line] else lines),
              (width, chunks, lines)) \<in> measure (\<lambda>(width, chunks, lines). chunks_size chunks)"
    using wrap_line_decreases [of chunks width "lines \<noteq> []"] by (auto simp: fst_def split: prod.splits)
qed

declare wrap_loop.simps [simp del]

definition wrap_chunks :: "int \<Rightarrow> string list \<Rightarrow> error + string list" where
  "wrap_chunks width chunks = (if width \<le> 0 then Inl ValueError else Inr (wrap_loop width chunks []))"

text \<open>\<open>wrap(text, width)\<close>: \<open>TextWrapper(width=width).wrap(text)\<close>.\<close>

definition wrap :: "string \<Rightarrow> int \<Rightarrow> error + string list" where
  "wrap text width = wrap_chunks width (split_chunks text)"

text \<open>
  \<open>wrap(text, 100)\<close> at the call sites of \<open>build_pdf\<close>.  The width is the constant 100, so
  the \<open>ValueError\<close> branch of \<open>wrap\<close> is never taken there (lemma \<open>wrap_100_returns\<close> below).
\<close>

definition wrapped :: "string \<Rightarrow> string list" where
  "wrapped text = (case wrap text 100 of Inr lines \<Rightarrow> lines | Inl _ \<Rightarrow> [])"

section \<open>The data of a generation request and the environment\<close>

text \<open>
  \<open>generate\<close> always builds the dict \<open>data\<close> with the same thirteen string fields, so the
  dict is a record and \<open>data.get(k, "")\<close> is the field.
\<close>

record event_data =
  ref_no :: string
  date_ref :: string
  title :: string
  department :: string
  academic_year :: string
  date_activity :: string
  organized_by :: string
  overview :: string
  day1 :: string
  day2 :: string
  learning_outcomes :: string
  conclusion :: string
  circular_text :: string

text \<open>
  What the libraries answer about files, as parameters of the model:
  \<open>image_size p\<close> is \<open>Image.open(p).size\<close>, or \<open>None\<close> when \<open>Image.open\<close> raises;
  \<open>pdf_image_ok p\<close> says that \<open>drawInlineImage\<close> accepts the file;
  \<open>docx_image_ok p\<close> says that python-docx's \<open>add_picture\<close> accepts it;
  \<open>save_error p\<close> is the message of the exception that saving to \<open>p\<close> raises, or \<open>None\<close> when
  the file is written.
\<close>

record env =
  image_size :: "string \<Rightarrow> (nat \<times> nat) option"
  pdf_image_ok :: "string \<Rightarrow> bool"
  docx_image_ok :: "string \<Rightarrow> bool"
  save_error :: "string \<Rightarrow> string option"

definition logo_path :: string where
  "logo_path = ''static/sec_logo.png''"

text \<open>Python's truth test \<open>if invitation_path:\<close> on a value that is \<open>None\<close> or a string.\<close>

definition truthy :: "string option \<Rightarrow> bool" where
  "truthy v = (case v of None \<Rightarrow> False | Some s \<Rightarrow> s \<noteq> [])"

section \<open>\<open>build_pdf\<close>: the canvas as the list of drawing calls\<close>

text \<open>
  The canvas is the list of calls made on it, in order.  Coordinates are Python floats in
  the source and exact rationals here; \<open>w, h = A4\<close> is \<open>(210 mm, 297 mm)\<close> in points,
  \<open>210 * 72 / 25.4\<close> and \<open>297 * 72 / 25.4\<close>.
\<close>

datatype pdf_op =
    SetFont string nat
  | DrawString rat rat string
  | DrawCentredString rat rat string
  | DrawRightString rat rat string
  | DrawInlineImage string rat rat rat rat
  | ShowPage

definition page_w :: rat where
  "page_w = 75600 / 127"

definition page_h :: rat where
  "page_h = 106920 / 127"

text \<open>\<open>draw_header\<close>: the logo when it loads (any exception is swallowed), then the name.\<close>

definition draw_header :: "env \<Rightarrow> pdf_op list" where
  "draw_header e =
     (case image_size e logo_path of
        None \<Rightarrow> []
      | Some (iw, ih) \<Rightarrow>
          if iw = 0 \<or> \<not> pdf_image_ok e logo_path then []
          else [DrawInlineImage logo_path (page_w / 2 - 120 / 2) (page_h - 80) 120
                  (of_nat ih * (120 / of_nat iw))])
     @ [SetFont ''Helvetica-Bold'' 12,
        DrawCentredString (page_w / 2) (page_h - 95) ''SURYA ENGINEERING COLLEGE, ERODE'']"

text \<open>Page 1: the circular.  The cursor \<open>y\<close> of this page is not read again.\<close>

definition circular_body :: "env \<Rightarrow> event_data \<Rightarrow> string option \<Rightarrow> rat \<Rightarrow> pdf_op list" where
  "circular_body e d invitation_path y =
     (let as_text = [SetFont ''Helvetica'' 10, DrawString 50 y (circular_text d)]
      in if truthy invitation_path
         then (case image_size e (the invitation_path) of
                 None \<Rightarrow> as_text
               | Some (iw, ih) \<Rightarrow>
                   if iw = 0 \<or> \<not> pdf_image_ok e (the invitation_path) then as_text
                   else (let max_w = page_w - 100;
                             ratio = max_w / of_nat iw;
                             draw_h = of_nat ih * ratio
                         in [DrawInlineImage (the invitation_path) 50 (y - draw_h - 10) max_w draw_h]))
         else as_text)"

definition circular_page :: "env \<Rightarrow> event_data \<Rightarrow> string option \<Rightarrow> pdf_op list" where
  "circular_page e d invitation_path =
     draw_header e
     @ [SetFont ''Helvetica-Bold'' 11,
        DrawString 50 (page_h - 120) (''Ref: '' @ ref_no d),
        DrawRightString (page_w - 50) (page_h - 120) (''Date: '' @ date_ref d),
        SetFont ''Helvetica-Bold'' 13,
        DrawString 50 (page_h - 150) ''CIRCULAR'']
     @ circular_body e d invitation_path (page_h - 180)
     @ [DrawString 50 120 (''HoD'' @ replicate 4 (CHR 0x09) @ ''PRINCIPAL''), ShowPage]"

text \<open>\<open>for L in lines: c.drawString(50, y, L); y -= 16\<close>\<close>

fun draw_fields :: "string list \<Rightarrow> rat \<Rightarrow> pdf_op list \<times> rat" where
  "draw_fields [] y = ([], y)"
| "draw_fields (L # Ls) y =
     (let (ops, y') = draw_fields Ls (y - 16) in (DrawString 50 y L # ops, y'))"

text \<open>
  The loop every text section runs over its wrapped lines:
  \<open>c.drawString(50, y, ln); y -= 14; if y < 120: c.showPage(); draw_header(); y = h-120\<close>.
\<close>

fun draw_lines :: "env \<Rightarrow> string list \<Rightarrow> rat \<Rightarrow> pdf_op list \<times> rat" where
  "draw_lines e [] y = ([], y)"
| "draw_lines e (l # ls) y =
     (let y1 = y - 14;
          (brk, y2) = (if y1 < 120 then (ShowPage # draw_header e, page_h - 120) else ([], y1));
          (ops, y3) = draw_lines e ls y2
      in (DrawString 50 y l # brk @ ops, y3))"

text \<open>
  A text section: \<open>y -= 8\<close>, the heading in bold, \<open>y -= 16\<close>, then the wrapped lines.  The
  source writes these statements out five times (overview, day 1, day 2, learning outcomes,
  conclusion), differing in the heading and the field only.
\<close>

definition text_section :: "env \<Rightarrow> string \<Rightarrow> string \<Rightarrow> rat \<Rightarrow> pdf_op list \<times> rat" where
  "text_section e heading text y =
     (let (ops, y') = draw_lines e (wrapped text) (y - 8 - 16)
      in ([SetFont ''Helvetica-Bold'' 11, DrawString 50 (y - 8) heading, SetFont ''Helvetica'' 10] @ ops,
          y'))"

text \<open>\<open>if data.get(field): ...\<close>: the section is skipped when the field is the empty string.\<close>

definition optional_section :: "env \<Rightarrow> string \<Rightarrow> string \<Rightarrow> rat \<Rightarrow> pdf_op list \<times> rat" where
  "optional_section e heading text y = (if text \<noteq> [] then text_section e heading text y else ([], y))"

text \<open>Page 2: the report.  Its last cursor \<open>y\<close> is still the variable \<open>y\<close> on page 3.\<close>

definition report_page :: "env \<Rightarrow> event_data \<Rightarrow> pdf_op list \<times> rat" where
  "report_page e d =
     (let (o0, y0) = draw_fields
            [''Name of the activity: '' @ title d,
             ''Department: '' @ department d,
             ''Academic year: '' @ academic_year d,
             ''Date of activity conducted: '' @ date_activity d,
             ''Organized by: '' @ organized_by d] (page_h - 170);
          (o1, y1) = text_section e ''Workshop Overview:'' (overview d) y0;
          (o2, y2) = optional_section e ''Day 1: Fundamentals and Demonstrations'' (day1 d) y1;
          (o3, y3) = optional_section e ''Day 2: Advanced Troubleshooting and Maintenance'' (day2 d) y2;
          (o4, y4) = optional_section e ''Learning Outcomes:'' (learning_outcomes d) y3;
          (o5, y5) = optional_section e ''Conclusion:'' (conclusion d) y4
      in (draw_header e
          @ [SetFont ''Helvetica-Bold'' 13,
             DrawCentredString (page_w / 2) (page_h - 120) (''DEPARTMENT OF '' @ department d),
             SetFont ''Helvetica-Bold'' 12,
             DrawCentredString (page_w / 2) (page_h - 140) ''REPORT OF THE EVENT'',
             SetFont ''Helvetica'' 10]
          @ o0 @ o1 @ o2 @ o3 @ o4 @ o5
          @ [SetFont ''Helvetica'' 10,
             DrawString 50 100 ''HoD'',
             DrawRightString (page_w - 50) 100 ''PRINCIPAL'',
             ShowPage],
          y5))"

text \<open>Page 3: the photo grid, with \<open>x_margin = 50\<close>, \<open>row_h = 120\<close> and a gutter of 20.\<close>

definition col_w :: rat where
  "col_w = (page_w - 2 * 50 - 20) / 2"

definition row_h :: rat where
  "row_h = 120"

definition x_positions :: "rat list" where
  "x_positions = [50, 50 + col_w + 20]"

text \<open>
  The \<open>try\<close> block of the grid loop: the calls drawn and the new value of \<open>y\<close>.  Whatever is
  raised (\<open>Image.open\<close> failing, a division by a zero dimension, an index outside
  \<open>x_positions\<close>, \<open>drawInlineImage\<close> failing) is swallowed by \<open>except Exception: pass\<close>;
  \<open>y\<close> keeps its old value unless the assignment to it was reached.
\<close>

definition place_photo :: "env \<Rightarrow> string \<Rightarrow> nat \<Rightarrow> nat \<Rightarrow> rat \<Rightarrow> rat \<Rightarrow> pdf_op list \<times> rat" where
  "place_photo e p col row y y_start =
     (case image_size e p of
        None \<Rightarrow> ([], y)
      | Some (iw, ih) \<Rightarrow>
          if iw = 0 \<or> ih = 0 \<or> \<not> col < length x_positions then ([], y)
          else (let ratio = min (col_w / of_nat iw) (row_h / of_nat ih);
                    draw_w = of_nat iw * ratio;
                    draw_h = of_nat ih * ratio;
                    x = x_positions ! col + (col_w - draw_w) / 2;
                    y' = y_start - of_nat row * (row_h + 20) - draw_h
                in (if pdf_image_ok e p then [DrawInlineImage p x y' draw_w draw_h] else [], y')))"

text \<open>
  One pass of the grid loop \<open>for idx, p in enumerate(photo_paths)\<close> on its variables
  \<open>col\<close>, \<open>row\<close>, \<open>y\<close> and \<open>y_start\<close>: the \<open>try\<close> block, then \<open>col += 1\<close> and, past the
  second column, \<open>col = 0; row += 1\<close> and the page break \<open>if y - row_h < 120\<close>.
\<close>

type_synonym grid_state = "nat \<times> nat \<times> rat \<times> rat"

definition grid_step :: "env \<Rightarrow> string \<Rightarrow> grid_state \<Rightarrow> pdf_op list \<times> grid_state" where
  "grid_step e p s =
     (case s of (col, row, y, y_start) \<Rightarrow>
        (let (img, y1) = place_photo e p col row y y_start
         in if col + 1 > 1
            then (if y1 - row_h < 120
                  then (img @ ShowPage # draw_header e, (0, 0, y1, page_h - 160))
                  else (img, (0, row + 1, y1, y_start)))
            else (img, (col + 1, row, y1, y_start))))"

fun photo_grid :: "env \<Rightarrow> string list \<Rightarrow> grid_state \<Rightarrow> pdf_op list \<times> grid_state" where
  "photo_grid e [] s = ([], s)"
| "photo_grid e (p # ps) s =
     (let (ops1, s1) = grid_step e p s;
          (ops2, s2) = photo_grid e ps s1
      in (ops1 @ ops2, s2))"

definition photo_page :: "env \<Rightarrow> string list \<Rightarrow> rat \<Rightarrow> pdf_op list" where
  "photo_page e photo_paths y =
     draw_header e
     @ [SetFont ''Helvetica-Bold'' 13,
        DrawCentredString (page_w / 2) (page_h - 120) ''Event Photographs'']
     @ fst (photo_grid e photo_paths (0, 0, y, page_h - 160))"

text \<open>All the calls \<open>build_pdf\<close> makes on the canvas before \<open>c.save()\<close>.\<close>

definition pdf_ops :: "env \<Rightarrow> event_data \<Rightarrow> string option \<Rightarrow> string list \<Rightarrow> pdf_op list" where
  "pdf_ops e d invitation_path photo_paths =
     (let (report, y) = report_page e d
      in circular_page e d invitation_path @ report @ photo_page e photo_paths y)"

section \<open>\<open>build_docx\<close>: the document as its header runs and body blocks\<close>

text \<open>
  A python-docx document is modelled by what the builder puts into it: the runs of the header
  paragraph and the sequence of body blocks.  A run is text (bold or not), an inline picture
  with its width in inches, a page break, or a run left empty (\<open>add_run()\<close> whose
  \<open>add_picture\<close> then raised).  A block is a paragraph (style, runs) or a table (style, rows of
  cells, each cell the runs of its first paragraph); style \<open>None\<close> is the document default.
\<close>

datatype run = TextRun string bool | PictureRun string rat | PageBreakRun | EmptyRun

datatype block =
    Paragraph "string option" "run list"
  | Table "string option" "run list list list"

record docx_doc =
  doc_header :: "run list"
  doc_body :: "block list"

definition nl :: string where
  "nl = [CHR 0x0A]"

definition tb :: string where
  "tb = [CHR 0x09]"

text \<open>\<open>doc.add_paragraph(text, style)\<close>: the run is added only \<open>if text\<close>.\<close>

definition add_paragraph :: "string \<Rightarrow> string option \<Rightarrow> block" where
  "add_paragraph text style = Paragraph style (if text = [] then [] else [TextRun text False])"

definition page_break :: block where
  "page_break = Paragraph None [PageBreakRun]"

text \<open>\<open>os.path.basename\<close>: what follows the last slash.\<close>

definition basename :: "string \<Rightarrow> string" where
  "basename p = rev (takeWhile (\<lambda>c. c \<noteq> CHR ''/'') (rev p))"

definition docx_header :: "env \<Rightarrow> run list" where
  "docx_header e =
     [if docx_image_ok e logo_path then PictureRun logo_path (16 / 10) else EmptyRun,
      TextRun (nl @ ''SURYA ENGINEERING COLLEGE, ERODE'') True]"

text \<open>
  Lines 61-68: the invitation picture, or the circular text.  \<open>doc.add_picture\<close> is
  \<open>run = self.add_paragraph().add_run(); return run.add_picture(...)\<close>: the paragraph and its
  empty run are in the body before the image is opened, and stay there when opening it raises;
  the \<open>except\<close> branch then appends the circular text as a further paragraph.
\<close>

definition invitation_blocks :: "env \<Rightarrow> event_data \<Rightarrow> string option \<Rightarrow> block list" where
  "invitation_blocks e d invitation_path =
     (if truthy invitation_path
      then (if docx_image_ok e (the invitation_path)
            then [Paragraph None [PictureRun (the invitation_path) 6]]
            else [Paragraph None [EmptyRun], add_paragraph (circular_text d) None])
      else [add_paragraph (circular_text d) None])"

definition docx_circular_page :: "env \<Rightarrow> event_data \<Rightarrow> string option \<Rightarrow> block list" where
  "docx_circular_page e d invitation_path =
     [Paragraph None [],
      Paragraph None
        [TextRun (''Ref: '' @ ref_no d @ tb @ tb @ tb @ ''Date: '' @ date_ref d @ nl) True],
      add_paragraph (nl @ ''CIRCULAR'' @ nl) (Some ''Intense Quote'')]
     @ invitation_blocks e d invitation_path
     @ [add_paragraph (nl @ nl @ ''HoD'' @ tb @ tb @ tb @ tb @ ''PRINCIPAL'') None,
        add_paragraph (nl @ ''Copy to'' @ nl @ ''All HoD'' @ [CHR 0x27] @ ''s'' @ nl @ ''Notice board'' @ nl
                       @ ''To be read in all class rooms'') None,
        page_break]"

text \<open>\<open>if data.get(field):\<close> a heading and the text, or nothing.\<close>

definition docx_optional :: "string \<Rightarrow> string \<Rightarrow> string \<Rightarrow> block list" where
  "docx_optional heading style text =
     (if text \<noteq> [] then [add_paragraph heading (Some style), add_paragraph text None] else [])"

definition docx_report_page :: "event_data \<Rightarrow> block list" where
  "docx_report_page d =
     [add_paragraph (''DEPARTMENT OF '' @ department d) (Some ''Title''),
      add_paragraph ''REPORT OF THE EVENT'' (Some ''Heading 1''),
      Table (Some ''Light List Accent 1'')
        (map (\<lambda>(k, v). [[TextRun k False], [TextRun v False]])
           [(''Name of the activity'', title d),
            (''Department'', department d),
            (''Academic year'', academic_year d),
            (''Date of activity conducted'', date_activity d),
            (''Organized by'', organized_by d)]),
      add_paragraph nl None,
      add_paragraph ''Workshop Overview'' (Some ''Heading 2''),
      add_paragraph (overview d) None]
     @ docx_optional (nl @ ''Day 1: Fundamentals and Demonstrations'') ''Heading 3'' (day1 d)
     @ docx_optional (nl @ ''Day 2: Advanced Troubleshooting and Maintenance'') ''Heading 3'' (day2 d)
     @ docx_optional (nl @ ''Learning Outcomes'') ''Heading 2'' (learning_outcomes d)
     @ [add_paragraph (nl @ ''Conclusion'') (Some ''Heading 2''),
        add_paragraph (conclusion d) None,
        add_paragraph (nl @ nl @ ''Function was inaugurated by our resource person'' @ nl @ nl) None,
        Table (Some ''Light List Accent 1'')
          [[[TextRun (nl @ nl @ ''HoD'') False], [TextRun (nl @ nl @ ''PRINCIPAL'') False]]],
        page_break]"

text \<open>
  The photo loop keeps \<open>row_cells\<close>, the cells of the table added last, while paragraphs may be
  appended to the body after that table.  Here \<open>row_cells\<close> is the position of that table in
  the body (\<open>None\<close> while the name is unbound), and writing into a cell updates the block at
  that position.
\<close>

definition put_in_cell :: "block list \<Rightarrow> nat \<Rightarrow> nat \<Rightarrow> run \<Rightarrow> block list" where
  "put_in_cell body t c r =
     (if t < length body
      then (case body ! t of
              Table st (cells # rows) \<Rightarrow>
                if c < length cells then body[t := Table st (cells[c := cells ! c @ [r]] # rows)]
                else body
            | _ \<Rightarrow> body)
      else body)"

definition unable_notice :: "string \<Rightarrow> block" where
  "unable_notice p = add_paragraph (''(Unable to add image: '' @ basename p @ '')'') None"

text \<open>
  \<open>for i, p in enumerate(photo_paths)\<close>: for even \<open>i\<close> a table of one row and two cells is
  added; an empty run is added to cell \<open>i % 2\<close> and the picture put into it.  When the picture
  cannot be added the \<open>except\<close> branch appends the notice to the body.
\<close>

fun docx_photo_loop :: "env \<Rightarrow> string list \<Rightarrow> nat \<Rightarrow> nat option \<Rightarrow> block list \<Rightarrow> block list" where
  "docx_photo_loop e [] i row_cells body = body"
| "docx_photo_loop e (p # ps) i row_cells body =
     (let (row_cells1, body1) =
            (if i mod 2 = 0 then (Some (length body), body @ [Table None [[[], []]]])
             else (row_cells, body))
      in case row_cells1 of
           None \<Rightarrow> docx_photo_loop e ps (i + 1) row_cells1 (body1 @ [unable_notice p])
         | Some t \<Rightarrow>
             if docx_image_ok e p
             then docx_photo_loop e ps (i + 1) row_cells1 (put_in_cell body1 t (i mod 2) (PictureRun p 3))
             else docx_photo_loop e ps (i + 1) row_cells1
                    (put_in_cell body1 t (i mod 2) EmptyRun @ [unable_notice p]))"

definition docx_photo_page :: "env \<Rightarrow> string list \<Rightarrow> block list \<Rightarrow> block list" where
  "docx_photo_page e photo_paths body =
     (let body1 = body @ [add_paragraph ''Event Photographs'' (Some ''Heading 1'')]
      in if photo_paths \<noteq> [] then docx_photo_loop e photo_paths 0 None body1
         else body1 @ [add_paragraph ''No photos uploaded.'' None])"

definition docx_document :: "env \<Rightarrow> event_data \<Rightarrow> string option \<Rightarrow> string list \<Rightarrow> docx_doc" where
  "docx_document e d invitation_path photo_paths =
     \<lparr>doc_header = docx_header e,
      doc_body = docx_photo_page e photo_paths
                   (docx_circular_page e d invitation_path @ docx_report_page d)\<rparr>"

section \<open>Files, the two builders and the routes\<close>

text \<open>
  The file system is a map from paths to what is there: a file the program wrote, or a
  directory.  A builder returns the path and the new file system, or the exception its
  \<open>save\<close> raised.  An exception is a failed save with its message, or the
  \<open>IsADirectoryError\<close> of opening a directory as a file.
\<close>

datatype artifact = Upload string | DocxFile docx_doc | PdfFile "pdf_op list" | Directory

type_synonym files = "string \<Rightarrow> artifact option"

datatype failure = SaveFailed string | IsADirectory string

definition build_docx ::
  "env \<Rightarrow> string \<Rightarrow> event_data \<Rightarrow> string option \<Rightarrow> string list \<Rightarrow> files \<Rightarrow> failure + string \<times> files" where
  "build_docx e path d invitation_path photo_paths fs =
     (let doc = docx_document e d invitation_path photo_paths
      in case save_error e path of
           Some msg \<Rightarrow> Inl (SaveFailed msg)
         | None \<Rightarrow> Inr (path, fs(path \<mapsto> DocxFile doc)))"

definition build_pdf ::
  "env \<Rightarrow> string \<Rightarrow> event_data \<Rightarrow> string option \<Rightarrow> string list \<Rightarrow> files \<Rightarrow> failure + string \<times> files" where
  "build_pdf e path d invitation_path photo_paths fs =
     (let ops = pdf_ops e d invitation_path photo_paths
      in case save_error e path of
           Some msg \<Rightarrow> Inl (SaveFailed msg)
         | None \<Rightarrow> Inr (path, fs(path \<mapsto> PdfFile ops)))"

subsection \<open>File names\<close>

definition UPLOAD_FOLDER :: string where
  "UPLOAD_FOLDER = ''uploads''"

definition OUTPUT_FOLDER :: string where
  "OUTPUT_FOLDER = ''outputs''"

definition ALLOWED_IMG :: "string set" where
  "ALLOWED_IMG = {''png'', ''jpg'', ''jpeg'', ''gif''}"

text \<open>\<open>os.path.join(a, b)\<close> on POSIX: an absolute \<open>b\<close> replaces \<open>a\<close>.\<close>

definition os_path_join :: "string \<Rightarrow> string \<Rightarrow> string" where
  "os_path_join a b =
     (if b \<noteq> [] \<and> hd b = CHR ''/'' then b
      else if a = [] \<or> last a = CHR ''/'' then a @ b
      else a @ ''/'' @ b)"

text \<open>\<open>str.lower()\<close> on code points below 256.\<close>

definition py_lower :: "char \<Rightarrow> char" where
  "py_lower c =
     (if in_ranges [(65, 90), (192, 214), (216, 222)] c then char_of (of_char c + (32::nat)) else c)"

text \<open>\<open>filename.rsplit(".", 1)[1]\<close> for a name that contains a dot: what follows the last dot.\<close>

definition extension :: "string \<Rightarrow> string" where
  "extension filename = rev (takeWhile (\<lambda>c. c \<noteq> CHR ''.'') (rev filename))"

definition allowed_file :: "string \<Rightarrow> bool" where
  "allowed_file filename =
     (CHR ''.'' \<in> set filename \<and> map py_lower (extension filename) \<in> ALLOWED_IMG)"

text \<open>
  \<open>werkzeug.utils.secure_filename\<close> on POSIX: NFKD normalisation and \<open>encode("ascii", "ignore")\<close>
  (a table for the code points from 128 to 255: the ASCII characters left of each
  decomposition), every \<open>/\<close> replaced by a space, \<open>"_".join(filename.split())\<close>, the characters
  outside \<open>[A-Za-z0-9_.-]\<close> removed, and \<open>strip("._")\<close>.
\<close>

definition nfkd_ascii_table :: "(nat \<times> string) list" where
  "nfkd_ascii_table =
     [(160, '' ''), (168, '' ''), (170, ''a''), (175, '' ''), (178, ''2''), (179, ''3''), (180, '' ''),
      (184, '' ''), (185, ''1''), (186, ''o''), (188, ''14''), (189, ''12''), (190, ''34''),
      (192, ''A''), (193, ''A''), (194, ''A''), (195, ''A''), (196, ''A''), (197, ''A''), (199, ''C''),
      (200, ''E''), (201, ''E''), (202, ''E''), (203, ''E''), (204, ''I''), (205, ''I''), (206, ''I''),
      (207, ''I''), (209, ''N''), (210, ''O''), (211, ''O''), (212, ''O''), (213, ''O''), (214, ''O''),
      (217, ''U''), (218, ''U''), (219, ''U''), (220, ''U''), (221, ''Y''), (224, ''a''), (225, ''a''),
      (226, ''a''), (227, ''a''), (228, ''a''), (229, ''a''), (231, ''c''), (232, ''e''), (233, ''e''),
      (234, ''e''), (235, ''e''), (236, ''i''), (237, ''i''), (238, ''i''), (239, ''i''), (241, ''n''),
      (242, ''o''), (243, ''o''), (244, ''o''), (245, ''o''), (246, ''o''), (249, ''u''), (250, ''u''),
      (251, ''u''), (252, ''u''), (253, ''y''), (255, ''y'')]"

definition nfkd_ascii :: "char \<Rightarrow> string" where
  "nfkd_ascii c =
     (if (of_char c :: nat) < 128 then [c]
      else (case map_of nfkd_ascii_table (of_char c) of None \<Rightarrow> [] | Some s \<Rightarrow> s))"

text \<open>\<open>str.split()\<close>: the maximal runs of characters that are not whitespace.\<close>

fun py_split :: "string \<Rightarrow> string \<Rightarrow> string list" where
  "py_split cur [] = (if cur = [] then [] else [cur])"
| "py_split cur (c # cs) =
     (if py_isspace c then (if cur = [] then py_split [] cs else cur # py_split [] cs)
      else py_split (cur @ [c]) cs)"

fun py_join :: "string \<Rightarrow> string list \<Rightarrow> string" where
  "py_join sep [] = []"
| "py_join sep [x] = x"
| "py_join sep (x # y # ys) = x @ sep @ py_join sep (y # ys)"

definition filename_char :: "char \<Rightarrow> bool" where
  "filename_char c = in_ranges [(65, 90), (97, 122), (48, 57), (95, 95), (46, 46), (45, 45)] c"

definition strip_chars :: "(char \<Rightarrow> bool) \<Rightarrow> string \<Rightarrow> string" where
  "strip_chars P s = rev (dropWhile P (rev (dropWhile P s)))"

definition secure_filename :: "string \<Rightarrow> string" where
  "secure_filename filename =
     (let ascii = concat (map nfkd_ascii filename);
          no_sep = map (\<lambda>c. if c = CHR ''/'' then CHR '' '' else c) ascii;
          joined = py_join ''_'' (py_split [] no_sep)
      in strip_chars (\<lambda>c. c = CHR ''.'' \<or> c = CHR ''_'') (filter filename_char joined))"

subsection \<open>\<open>generate\<close>\<close>

text \<open>
  A request carries the form fields, the file part \<open>invitation\<close> if there is one and the file
  parts \<open>photos\<close>, each given by its file name (a \<open>FileStorage\<close> is true when its name is not
  empty).
\<close>

record request =
  form :: event_data
  invitation_file :: "string option"
  photo_files :: "string list"

datatype response =
    Body string nat
  | SendFile string bool
  | RedirectIndex string string
  | PreviewPage event_data "string option" "string list" string string
  | Uncaught failure

text \<open>\<open>save_file\<close> for a file object that is true.\<close>

definition save_file :: "env \<Rightarrow> string \<Rightarrow> files \<Rightarrow> failure + string \<times> files" where
  "save_file e filename fs =
     (let path = os_path_join UPLOAD_FOLDER (secure_filename filename)
      in case save_error e path of
           Some msg \<Rightarrow> Inl (SaveFailed msg)
         | None \<Rightarrow> Inr (path, fs(path \<mapsto> Upload filename)))"

text \<open>
  The loop over \<open>photos\<close>.  An exception raised while an upload is saved is not caught in
  \<open>generate\<close>; it is returned with the file system as it is at that moment.
\<close>

fun save_photos ::
  "env \<Rightarrow> string list \<Rightarrow> string list \<Rightarrow> files \<Rightarrow> failure \<times> files + string list \<times> files" where
  "save_photos e [] photo_paths fs = Inr (photo_paths, fs)"
| "save_photos e (p # ps) photo_paths fs =
     (if p \<noteq> [] \<and> allowed_file p
      then (case save_file e p fs of
              Inl err \<Rightarrow> Inl (err, fs)
            | Inr (path, fs') \<Rightarrow> save_photos e ps (photo_paths @ [path]) fs')
      else save_photos e ps photo_paths fs)"

text \<open>Lines 353-363: \<open>invitation_path\<close>, \<open>photo_paths\<close> and the file system after the uploads.\<close>

definition save_uploads ::
  "env \<Rightarrow> request \<Rightarrow> files \<Rightarrow> failure \<times> files + string option \<times> string list \<times> files" where
  "save_uploads e rq fs =
     (let saved_invitation =
            (case invitation_file rq of
               None \<Rightarrow> Inr (None, fs)
             | Some f \<Rightarrow>
                 if f \<noteq> [] \<and> allowed_file f
                 then (case save_file e f fs of
                         Inl err \<Rightarrow> Inl (err, fs)
                       | Inr (path, fs') \<Rightarrow> Inr (Some path, fs'))
                 else Inr (None, fs))
      in case saved_invitation of
           Inl failed \<Rightarrow> Inl failed
         | Inr (invitation_path, fs1) \<Rightarrow>
             (case save_photos e (photo_files rq) [] fs1 of
                Inl failed \<Rightarrow> Inl failed
              | Inr (photo_paths, fs2) \<Rightarrow> Inr (invitation_path, photo_paths, fs2)))"

text \<open>\<open>secure_filename((data.get("title") or "event").replace(" ", "_"))\<close>\<close>

definition base_name :: "string \<Rightarrow> string" where
  "base_name t =
     secure_filename (map (\<lambda>c. if c = CHR '' '' then CHR ''_'' else c) (if t \<noteq> [] then t else ''event''))"

definition docx_path_of :: "event_data \<Rightarrow> string" where
  "docx_path_of d = os_path_join OUTPUT_FOLDER (base_name (title d) @ ''.docx'')"

definition pdf_path_of :: "event_data \<Rightarrow> string" where
  "pdf_path_of d = os_path_join OUTPUT_FOLDER (base_name (title d) @ ''.pdf'')"

text \<open>\<open>str(e)\<close> of the exception caught.\<close>

definition str_of_failure :: "failure \<Rightarrow> string" where
  "str_of_failure err =
     (case err of
        SaveFailed msg \<Rightarrow> msg
      | IsADirectory p \<Rightarrow> ''[Errno 21] Is a directory: '' @ [CHR 0x27] @ p @ [CHR 0x27])"

text \<open>
  Lines 365-391: the word-processor document is built first; when that raises, the message is
  flashed and the request redirected, and \<open>build_pdf\<close> is not reached.  An exception of
  \<open>build_pdf\<close> is passed over.
\<close>

definition build_artifacts ::
  "env \<Rightarrow> event_data \<Rightarrow> string option \<Rightarrow> string list \<Rightarrow> files \<Rightarrow> response \<times> files" where
  "build_artifacts e d invitation_path photo_paths fs =
     (case build_docx e (docx_path_of d) d invitation_path photo_paths fs of
        Inl err \<Rightarrow> (RedirectIndex (''Error creating DOCX: '' @ str_of_failure err) ''danger'', fs)
      | Inr (_, fs1) \<Rightarrow>
          (let fs2 = (case build_pdf e (pdf_path_of d) d invitation_path photo_paths fs1 of
                        Inl err \<Rightarrow> fs1
                      | Inr (_, fs') \<Rightarrow> fs')
           in (PreviewPage d invitation_path photo_paths
                 (basename (docx_path_of d)) (basename (pdf_path_of d)), fs2)))"

definition generate :: "env \<Rightarrow> request \<Rightarrow> files \<Rightarrow> response \<times> files" where
  "generate e rq fs =
     (case save_uploads e rq fs of
        Inl (err, fs') \<Rightarrow> (Uncaught err, fs')
      | Inr (invitation_path, photo_paths, fs') \<Rightarrow>
          build_artifacts e (form rq) invitation_path photo_paths fs')"

subsection \<open>\<open>download\<close>\<close>

text \<open>
  The paths that are directories.  \<open>os.makedirs(OUTPUT_FOLDER, exist_ok=True)\<close> runs when the
  module is loaded, so the outputs folder exists whatever else the file system holds, and
  with it the paths \<open>outputs/.\<close> and \<open>outputs/..\<close>; any other directory is an entry of the
  map.
\<close>

definition is_dir :: "files \<Rightarrow> string \<Rightarrow> bool" where
  "is_dir fs p =
     (p = OUTPUT_FOLDER @ ''/.'' \<or> p = OUTPUT_FOLDER @ ''/..'' \<or> fs p = Some Directory)"

text \<open>\<open>os.path.exists\<close>: true of files and of directories.\<close>

definition path_exists :: "files \<Rightarrow> string \<Rightarrow> bool" where
  "path_exists fs p = (fs p \<noteq> None \<or> is_dir fs p)"

text \<open>
  \<open>send_file(fpath, as_attachment=True)\<close> opens the path as a file; on a directory that
  raises \<open>IsADirectoryError\<close>, which nothing in \<open>download\<close> catches.
\<close>

definition send_file :: "files \<Rightarrow> string \<Rightarrow> response" where
  "send_file fs fpath = (if is_dir fs fpath then Uncaught (IsADirectory fpath) else SendFile fpath True)"

definition download :: "files \<Rightarrow> string \<Rightarrow> string \<Rightarrow> response" where
  "download fs fmt filename =
     (let fpath = os_path_join OUTPUT_FOLDER filename
      in if fmt = ''pdf'' \<and> \<not> path_exists fs fpath then Body ''PDF not available'' 404
         else if \<not> path_exists fs fpath then Body ''File not found'' 404
         else send_file fs fpath)"

section \<open>Reading the artifacts\<close>



text \<open>The strings a list of canvas calls draws, in order.\<close>

fun drawn_text :: "pdf_op \<Rightarrow> string list" where
  "drawn_text (DrawString x y s) = [s]"
| "drawn_text (DrawCentredString x y s) = [s]"
| "drawn_text (DrawRightString x y s) = [s]"
| "drawn_text _ = []"

definition drawn_texts :: "pdf_op list \<Rightarrow> string list" where
  "drawn_texts ops = concat (map drawn_text ops)"

text \<open>
  The cursor after a line drawn at \<open>y\<close>: \<open>y -= 14\<close>, then \<open>y = h-120\<close> on the new page when
  the lowered cursor is below 120; and the calls one line makes in the loop of a text section.
\<close>

definition next_line_y :: "rat \<Rightarrow> rat" where
  "next_line_y y = (if y - 14 < 120 then page_h - 120 else y - 14)"

definition line_ops :: "env \<Rightarrow> string \<times> rat \<Rightarrow> pdf_op list" where
  "line_ops e = (\<lambda>(l, y). DrawString 50 y l # (if y - 14 < 120 then ShowPage # draw_header e else []))"

text \<open>The photos a list of canvas calls draws: the inline images other than the header's logo.\<close>

fun photo_drawn :: "pdf_op \<Rightarrow> string list" where
  "photo_drawn (DrawInlineImage p x y w h) = (if p = logo_path then [] else [p])"
| "photo_drawn _ = []"

definition photos_drawn :: "pdf_op list \<Rightarrow> string list" where
  "photos_drawn ops = concat (map photo_drawn ops)"

text \<open>A photo that the \<open>try\<close> block of the grid loop draws.\<close>

definition placeable :: "env \<Rightarrow> string \<Rightarrow> bool" where
  "placeable e p =
     (case image_size e p of
        None \<Rightarrow> False
      | Some (iw, ih) \<Rightarrow> iw \<noteq> 0 \<and> ih \<noteq> 0 \<and> pdf_image_ok e p)"

section \<open>The layout of the photo page of the word-processor document, row by row\<close>

text \<open>
  What the photo loop of \<open>build_docx\<close> is shown to produce (theorem
  \<open>docx_photo_failures_noted_after_row\<close>): one table per pair of photos, photo \<open>i\<close> in cell
  \<open>i mod 2\<close> of table \<open>i div 2\<close>; the cell of a photo that could not be added holds the run left
  empty, and the notices of the failed photos of a row follow its table as body paragraphs.
\<close>

definition photo_cell :: "env \<Rightarrow> string \<Rightarrow> run list" where
  "photo_cell e p = [if docx_image_ok e p then PictureRun p 3 else EmptyRun]"

definition photo_notices :: "env \<Rightarrow> string list \<Rightarrow> block list" where
  "photo_notices e ps = map unable_notice (filter (\<lambda>p. \<not> docx_image_ok e p) ps)"

fun photo_rows :: "env \<Rightarrow> string list \<Rightarrow> block list" where
  "photo_rows e [] = []"
| "photo_rows e [p] = Table None [[photo_cell e p, []]] # photo_notices e [p]"
| "photo_rows e (p # q # ps) =
     Table None [[photo_cell e p, photo_cell e q]] # photo_notices e [p, q] @ photo_rows e ps"

section \<open>Inputs used to exercise the theorems\<close>

definition blank_event :: event_data where
  "blank_event =
     \<lparr>ref_no = [], date_ref = [], title = [], department = [], academic_year = [],
      date_activity = [], organized_by = [], overview = [], day1 = [], day2 = [],
      learning_outcomes = [], conclusion = [], circular_text = []\<rparr>"

text \<open>An environment in which no image loads and every save succeeds.\<close>

definition no_images :: env where
  "no_images =
     \<lparr>image_size = (\<lambda>p. None), pdf_image_ok = (\<lambda>p. False), docx_image_ok = (\<lambda>p. False),
      save_error = (\<lambda>p. None)\<rparr>"

text \<open>
  An environment with two uploaded photos that load, one of 1000 by 10 pixels and one of
  100 by 100 pixels; nothing else loads.
\<close>

definition two_images :: env where
  "two_images =
     \<lparr>image_size = (\<lambda>p. if p = ''uploads/flat.png'' then Some (1000, 10)
                        else if p = ''uploads/square.png'' then Some (100, 100) else None),
      pdf_image_ok = (\<lambda>p. True), docx_image_ok = (\<lambda>p. True),
      save_error = (\<lambda>p. None)\<rparr>"

text \<open>A title of letters and digits with spaces between them only.\<close>

definition alnum :: "char \<Rightarrow> bool" where
  "alnum c = in_ranges [(48, 57), (65, 90), (97, 122)] c"

definition simple_title :: "string \<Rightarrow> bool" where
  "simple_title t =
     (t \<noteq> [] \<and> list_all (\<lambda>c. alnum c \<or> c = CHR '' '') t \<and> alnum (hd t) \<and> alnum (last t))"

section \<open>Properties of the text wrapper\<close>

lemma wrap_line_len:
  assumes "1 \<le> width"
  shows "int (length (concat (snd (wrap_line width chunks started)))) \<le> width"
proof -
  define chunks1 where "chunks1 = (if is_blank (hd chunks) \<and> started then tl chunks else chunks)"
  obtain chunks2 cur_line cur_len where fl: "fill_line width chunks1 [] 0 = (chunks2, cur_line, cur_len)"
    by (cases "fill_line width chunks1 [] 0") auto
  define res where "res = (if chunks2 \<noteq> [] \<and> int (length (hd chunks2)) > width
              then handle_long_word chunks2 cur_line cur_len width
              else (chunks2, cur_line))"
  define cur_line4 where "cur_line4 = (if snd res \<noteq> [] \<and> is_blank (last (snd res))
                       then butlast (snd res) else snd res)"
  have out: "snd (wrap_line width chunks started) = cur_line4"
    unfolding wrap_line_def chunks1_def [symmetric] Let_def fl prod.case res_def [symmetric] cur_line4_def
    by (simp split: prod.splits)
  from fill_line_len [OF fl] assms
  have cl: "0 \<le> cur_len" "cur_len \<le> width" "cur_len = int (length (concat cur_line))" by auto
  have r: "int (length (concat (snd res))) \<le> width"
  proof (cases "chunks2 \<noteq> [] \<and> int (length (hd chunks2)) > width")
    case False
    then have "snd res = cur_line" by (auto simp: res_def)
    with cl show ?thesis by simp
  next
    case True
    then obtain c cs where cs: "chunks2 = c # cs" and long: "width < int (length c)"
      by (cases chunks2) auto
    obtain chunks3 cur_line3 where h: "handle_long_word (c # cs) cur_line cur_len width = (chunks3, cur_line3)"
      by (cases "handle_long_word (c # cs) cur_line cur_len width") auto
    from handle_long_word_end [OF h assms cl(1,2) long]
    obtain e where e: "cur_line3 = cur_line @ [take e c]" "int e \<le> width - cur_len" by auto
    have "snd res = cur_line3" using True cs h by (simp add: res_def)
    with e cl show ?thesis by simp
  qed
  have "length (concat cur_line4) \<le> length (concat (snd res))"
  proof (cases "snd res \<noteq> [] \<and> is_blank (last (snd res))")
    case True
    then have "snd res = butlast (snd res) @ [last (snd res)]" by simp
    then have "concat (snd res) = concat cur_line4 @ last (snd res)"
      using True by (metis concat_append concat.simps append_Nil2 cur_line4_def)
    then show ?thesis by simp
  next
    case False
    then show ?thesis by (auto simp: cur_line4_def)
  qed
  with r out show ?thesis by simp
qed

lemma wrap_loop_lines:
  "(\<forall>l\<in>set lines. int (length l) \<le> width) \<Longrightarrow>
     \<forall>l\<in>set (wrap_loop width chunks lines). int (length l) \<le> width"
proof (induction width chunks lines rule: wrap_loop.induct)
  case (1 width chunks lines)
  show ?case
  proof (cases "chunks = [] \<or> width < 1")
    case True
    with "1.prems" show ?thesis by (simp add: wrap_loop.simps)
  next
    case False
    obtain chunks' cur_line where wl: "wrap_line width chunks (lines \<noteq> []) = (chunks', cur_line)"
      by (cases "wrap_line width chunks (lines \<noteq> [])") auto
    let ?lines = "if cur_line \<noteq> [] then lines @ [concat cur_line] else lines"
    from False have "1 \<le> width" by simp
    from wrap_line_len [OF this, of chunks "lines \<noteq> []"] wl
    have "int (length (concat cur_line)) \<le> width" by simp
    with "1.prems" have "\<forall>l\<in>set ?lines. int (length l) \<le> width" by simp
    from "1.IH" [OF False wl [symmetric] refl this]
    have "\<forall>l\<in>set (wrap_loop width chunks' ?lines). int (length l) \<le> width" .
    moreover have "wrap_loop width chunks lines = wrap_loop width chunks' ?lines"
      using False wl by (subst wrap_loop.simps) simp
    ultimately show ?thesis by simp
  qed
qed

lemma wrap_100_returns: "wrap text 100 = Inr (wrapped text)"
  by (simp add: wrapped_def wrap_def wrap_chunks_def)

text \<open>
  Claim C1, as the code has it: for every input string and every width \<open>\<ge> 1\<close> the wrapper
  returns (it raises nothing and its loop terminates) and every line it produces has length
  at most the width, without exception: a word longer than the width is broken across
  lines, it does not get an overflowing line of its own.
\<close>

theorem wrap_lines_within_width:
  "1 \<le> width \<Longrightarrow>
     \<exists>lines. wrap text width = Inr lines \<and> (\<forall>l\<in>set lines. int (length l) \<le> width)"
  using wrap_loop_lines [of "[]" width "split_chunks text"]
  by (simp add: wrap_def wrap_chunks_def)

text \<open>Claim C1, witness: the theorem at the text \<open>ab cd\<close> and width 3.\<close>

theorem wrap_lines_within_width_witness:
  "(1::int) \<le> 3 \<and>
   (\<exists>lines. wrap ''ab cd'' 3 = Inr lines \<and> (\<forall>l\<in>set lines. int (length l) \<le> 3))"
  using wrap_lines_within_width [of 3 "''ab cd''"] by simp

text \<open>
  Claim C1, counterexample to the stated exception: the single word \<open>aaaaa\<close>, longer than
  the width 3, is not placed on an overflowing line of its own; it is broken into \<open>aaa\<close>
  and \<open>aa\<close>.
\<close>

theorem wrap_long_word_is_broken:
  "wrap ''aaaaa'' 3 = Inr [''aaa'', ''aa'']"
  by code_simp

section \<open>The word-processor document\<close>

lemma put_in_cell_length [simp]: "length (put_in_cell body t c r) = length body"
  by (auto simp: put_in_cell_def split: block.splits list.splits)











section \<open>The download route\<close>

lemma os_path_join_outputs:
  "CHR ''/'' \<notin> set name \<Longrightarrow> os_path_join OUTPUT_FOLDER name = ''outputs/'' @ name"
  by (cases name) (auto simp: os_path_join_def OUTPUT_FOLDER_def)

lemma download_cases:
  "CHR ''/'' \<notin> set filename \<Longrightarrow>
     download fs fmt filename =
       (if \<not> path_exists fs (''outputs/'' @ filename)
        then (if fmt = ''pdf'' then Body ''PDF not available'' 404 else Body ''File not found'' 404)
        else if is_dir fs (''outputs/'' @ filename)
             then Uncaught (IsADirectory (''outputs/'' @ filename))
             else SendFile (''outputs/'' @ filename) True)"
  by (simp add: download_def send_file_def os_path_join_outputs Let_def del: append.simps)

text \<open>
  Claim C10, at the file name \<open>.\<close> (and whatever the format selector and the files are): the
  path \<open>outputs/.\<close> exists, being the outputs folder itself, so neither not-found message is
  returned although no file is stored at that name; \<open>send_file\<close> is reached and raises, and
  the request ends with the uncaught \<open>IsADirectoryError\<close>.
\<close>

theorem download_of_directory_name_raises:
  "path_exists fs ''outputs/.'' \<and> download fs fmt ''.'' = Uncaught (IsADirectory ''outputs/.'')"
  by (simp add: download_def send_file_def path_exists_def is_dir_def os_path_join_def OUTPUT_FOLDER_def)

text \<open>
  Claim C10, witness: the request \<open>/download/docx/.\<close> on a file system with no files.
\<close>

theorem download_of_directory_name_raises_witness:
  "path_exists Map.empty ''outputs/.'' \<and>
   download Map.empty ''docx'' ''.'' = Uncaught (IsADirectory ''outputs/.'')"
  using download_of_directory_name_raises [of Map.empty "''docx''"] by simp

section \<open>The generation request\<close>

lemma base_name_empty: "base_name [] = ''event''"
  by code_simp

lemma base_name_robotics: "base_name ''Robotics Workshop'' = ''Robotics_Workshop''"
  by code_simp

lemma filename_char_slash: "\<not> filename_char CHR ''/''"
  by (simp add: filename_char_def in_ranges_def)

lemma strip_chars_subset: "c \<in> set (strip_chars P s) \<Longrightarrow> c \<in> set s"
proof -
  assume "c \<in> set (strip_chars P s)"
  then have "c \<in> set (dropWhile P (rev (dropWhile P s)))" by (simp add: strip_chars_def)
  then have "c \<in> set (rev (dropWhile P s))" by (rule set_dropWhileD)
  then have "c \<in> set (dropWhile P s)" by simp
  then show ?thesis by (rule set_dropWhileD)
qed

lemma secure_filename_chars: "c \<in> set (secure_filename s) \<Longrightarrow> filename_char c"
  unfolding secure_filename_def Let_def by (drule strip_chars_subset) simp

lemma base_name_no_slash: "CHR ''/'' \<notin> set (base_name t)"
  using secure_filename_chars filename_char_slash unfolding base_name_def by blast

lemma basename_join:
  assumes "CHR ''/'' \<notin> set name"
  shows "basename (os_path_join OUTPUT_FOLDER name) = name"
proof -
  have "os_path_join OUTPUT_FOLDER name = ''outputs'' @ CHR ''/'' # name"
    using assms by (cases name) (auto simp: os_path_join_def OUTPUT_FOLDER_def)
  moreover have "takeWhile (\<lambda>c. c \<noteq> CHR ''/'') (rev name @ CHR ''/'' # rev ''outputs'') = rev name"
    using assms by (subst takeWhile_tail) auto
  ultimately show ?thesis by (simp add: basename_def)
qed

lemma alnum_ascii: "alnum c \<Longrightarrow> (of_char c :: nat) < 128"
  by (auto simp: alnum_def in_ranges_def)

lemma alnum_props:
  "alnum c \<Longrightarrow> filename_char c \<and> \<not> py_isspace c \<and> c \<noteq> CHR ''/'' \<and> c \<noteq> CHR ''.'' \<and> c \<noteq> CHR ''_'' \<and> c \<noteq> CHR '' ''"
  by (auto simp: alnum_def filename_char_def py_isspace_def in_ranges_def)

lemma py_split_no_space:
  "\<forall>c\<in>set s. \<not> py_isspace c \<Longrightarrow> cur @ s \<noteq> [] \<Longrightarrow> py_split cur s = [cur @ s]"
  by (induction s arbitrary: cur) auto

lemma strip_chars_id:
  assumes "s \<noteq> []" and "\<not> P (hd s)" and "\<not> P (last s)"
  shows "strip_chars P s = s"
proof -
  from assms have "dropWhile P s = s" by (cases s) auto
  moreover from assms have "dropWhile P (rev s) = rev s"
    by (cases "rev s") (auto simp: last_rev [symmetric] hd_rev)
  ultimately show ?thesis by (simp add: strip_chars_def)
qed

lemma underscore_props:
  "filename_char CHR ''_'' \<and> \<not> py_isspace CHR ''_'' \<and> (of_char CHR ''_'' :: nat) < 128"
  by (simp add: filename_char_def py_isspace_def in_ranges_def)

lemma nfkd_ascii_id: "\<forall>c\<in>set u. (of_char c :: nat) < 128 \<Longrightarrow> concat (map nfkd_ascii u) = u"
  by (induction u) (auto simp: nfkd_ascii_def)

lemma base_name_simple_title:
  assumes "simple_title t"
  shows "base_name t = map (\<lambda>c. if c = CHR '' '' then CHR ''_'' else c) t"
proof -
  define u where "u = map (\<lambda>c. if c = CHR '' '' then CHR ''_'' else c) t"
  from assms have ne: "t \<noteq> []" and all: "\<forall>c\<in>set t. alnum c \<or> c = CHR '' ''"
    and h: "alnum (hd t)" and l: "alnum (last t)"
    by (auto simp: simple_title_def list_all_iff)
  have une: "u \<noteq> []" using ne by (simp add: u_def)
  have u: "\<forall>c\<in>set u. alnum c \<or> c = CHR ''_''" using all by (auto simp: u_def)
  have "\<forall>c\<in>set u. (of_char c :: nat) < 128"
    using u alnum_ascii underscore_props by blast
  then have ascii: "concat (map nfkd_ascii u) = u" by (rule nfkd_ascii_id)
  have nosep: "map (\<lambda>c. if c = CHR ''/'' then CHR '' '' else c) u = u"
    using u alnum_props by (intro map_idI) auto
  have "\<forall>c\<in>set u. \<not> py_isspace c" using u alnum_props underscore_props by blast
  with une have split: "py_split [] u = [u]" using py_split_no_space [of u "[]"] by simp
  have filt: "filter filename_char u = u"
    using u alnum_props underscore_props by (intro filter_True) blast
  have hd: "hd u = hd t" using ne h alnum_props by (cases t) (auto simp: u_def)
  have last: "last u = last t" using ne l alnum_props by (simp add: last_map u_def)
  have strip: "strip_chars (\<lambda>c. c = CHR ''.'' \<or> c = CHR ''_'') u = u"
    using une h l alnum_props hd last by (intro strip_chars_id) auto
  have "secure_filename u = u"
    unfolding secure_filename_def Let_def ascii nosep split py_join.simps filt strip ..
  then show ?thesis using ne by (simp add: base_name_def u_def)
qed


text \<open>
  Whenever \<open>generate\<close> reaches the preview, the names of both artifacts are the same base name
  with the extensions \<open>.docx\<close> and \<open>.pdf\<close>, and the base name is a function of the title alone:
  for a title of letters and digits separated by spaces it is the title with the spaces
  replaced by underscores, for the empty title it is \<open>event\<close>, and for the title
  \<open>Robotics Workshop\<close> it is \<open>Robotics_Workshop\<close>.
\<close>

lemma artifact_names_from_title:
  assumes "fst (generate e rq fs) = PreviewPage d i p docx pdf"
  shows "docx = base_name (title (form rq)) @ ''.docx'' \<and>
         pdf = base_name (title (form rq)) @ ''.pdf'' \<and>
         (simple_title (title (form rq)) \<longrightarrow>
            base_name (title (form rq))
              = map (\<lambda>c. if c = CHR '' '' then CHR ''_'' else c) (title (form rq))) \<and>
         (title (form rq) = [] \<longrightarrow> base_name (title (form rq)) = ''event'') \<and>
         (title (form rq) = ''Robotics Workshop'' \<longrightarrow> base_name (title (form rq)) = ''Robotics_Workshop'')"
proof -
  have names: "basename (docx_path_of (form rq)) = base_name (title (form rq)) @ ''.docx''"
    "basename (pdf_path_of (form rq)) = base_name (title (form rq)) @ ''.pdf''"
    using base_name_no_slash [of "title (form rq)"]
    by (simp_all add: docx_path_of_def pdf_path_of_def basename_join)
  have "docx = basename (docx_path_of (form rq)) \<and> pdf = basename (pdf_path_of (form rq))"
  proof (cases "save_uploads e rq fs")
    case (Inl failed)
    with assms show ?thesis by (cases failed) (simp add: generate_def)
  next
    case (Inr saved)
    obtain ip pp fs1 where saved: "saved = (ip, pp, fs1)" by (cases saved) auto
    show ?thesis
    proof (cases "build_docx e (docx_path_of (form rq)) (form rq) ip pp fs1")
      case (Inl err)
      with assms Inr saved show ?thesis by (simp add: generate_def build_artifacts_def)
    next
      case built: (Inr r)
      obtain q fs2 where "r = (q, fs2)" by (cases r) auto
      with assms Inr saved built show ?thesis
        by (auto simp: generate_def build_artifacts_def Let_def)
    qed
  qed
  with names have "docx = base_name (title (form rq)) @ ''.docx''"
    and "pdf = base_name (title (form rq)) @ ''.pdf''" by simp_all
  moreover have "simple_title (title (form rq)) \<longrightarrow>
            base_name (title (form rq))
              = map (\<lambda>c. if c = CHR '' '' then CHR ''_'' else c) (title (form rq))"
    using base_name_simple_title by blast
  moreover have "title (form rq) = [] \<longrightarrow> base_name (title (form rq)) = ''event''"
    using base_name_empty by simp
  moreover have "title (form rq) = ''Robotics Workshop'' \<longrightarrow> base_name (title (form rq)) = ''Robotics_Workshop''"
    using base_name_robotics by simp
  ultimately show ?thesis by blast
qed

lemma generate_previews_when_saves_succeed:
  "\<exists>docx pdf. fst (generate no_images \<lparr>form = d, invitation_file = None, photo_files = []\<rparr> Map.empty)
      = PreviewPage d None [] docx pdf"
  by (simp add: generate_def save_uploads_def build_artifacts_def build_docx_def build_pdf_def
        no_images_def Let_def)

lemma robotics_workshop_names:
  "fst (generate no_images
          \<lparr>form = blank_event\<lparr>title := ''Robotics Workshop''\<rparr>, invitation_file = None, photo_files = []\<rparr>
          Map.empty)
     = PreviewPage (blank_event\<lparr>title := ''Robotics Workshop''\<rparr>) None []
         ''Robotics_Workshop.docx'' ''Robotics_Workshop.pdf''"
proof -
  let ?rq = "\<lparr>form = blank_event\<lparr>title := ''Robotics Workshop''\<rparr>, invitation_file = None, photo_files = []\<rparr>"
  have t: "title (form ?rq) = ''Robotics Workshop''" by simp
  from generate_previews_when_saves_succeed [of "blank_event\<lparr>title := ''Robotics Workshop''\<rparr>"]
  obtain docx pdf where g: "fst (generate no_images ?rq Map.empty)
      = PreviewPage (blank_event\<lparr>title := ''Robotics Workshop''\<rparr>) None [] docx pdf" by blast
  from artifact_names_from_title [OF g] t
  have "docx = ''Robotics_Workshop.docx''" and "pdf = ''Robotics_Workshop.pdf''" by simp_all
  with g show ?thesis by simp
qed

lemma base_name_space: "base_name '' '' = []"
  by code_simp

text \<open>
  Claim C9, at the title of one space (a blank title that is not the empty string): the test
  \<open>data.get("title") or "event"\<close> lets it through, the sanitised name is empty, and the two
  artifacts are named \<open>.docx\<close> and \<open>.pdf\<close>; the default name is not used.
\<close>

theorem blank_title_gets_no_default_name:
  "base_name '' '' = [] \<and>
   fst (generate no_images
          \<lparr>form = blank_event\<lparr>title := '' ''\<rparr>, invitation_file = None, photo_files = []\<rparr>
          Map.empty)
     = PreviewPage (blank_event\<lparr>title := '' ''\<rparr>) None [] ''.docx'' ''.pdf''"
proof -
  let ?rq = "\<lparr>form = blank_event\<lparr>title := '' ''\<rparr>, invitation_file = None, photo_files = []\<rparr>"
  have t: "title (form ?rq) = '' ''" by simp
  from generate_previews_when_saves_succeed [of "blank_event\<lparr>title := '' ''\<rparr>"]
  obtain docx pdf where g: "fst (generate no_images ?rq Map.empty)
      = PreviewPage (blank_event\<lparr>title := '' ''\<rparr>) None [] docx pdf" by blast
  from artifact_names_from_title [OF g]
  have "docx = base_name (title (form ?rq)) @ ''.docx''" and "pdf = base_name (title (form ?rq)) @ ''.pdf''"
    by blast+
  then have "docx = ''.docx''" and "pdf = ''.pdf''"
    unfolding t by (simp_all add: base_name_space)
  with g base_name_space show ?thesis by simp
qed




section \<open>The photo pages\<close>

text \<open>
  Claim C4, at a request with zero photos: the word-processor document ends with the heading
  \<open>Event Photographs\<close> and the one notice \<open>No photos uploaded.\<close>, with no table; the PDF ends
  with the header and the title \<open>Event Photographs\<close>, and these are the only strings its
  photo page draws: it has no image, and no notice either.
\<close>

theorem zero_photos_notice_only_in_docx:
  "doc_body (docx_document e d invitation_path [])
     = docx_circular_page e d invitation_path @ docx_report_page d
       @ [add_paragraph ''Event Photographs'' (Some ''Heading 1''),
          add_paragraph ''No photos uploaded.'' None] \<and>
   pdf_ops e d invitation_path []
     = circular_page e d invitation_path @ fst (report_page e d) @ draw_header e
       @ [SetFont ''Helvetica-Bold'' 13,
          DrawCentredString (page_w / 2) (page_h - 120) ''Event Photographs''] \<and>
   drawn_texts (photo_page e [] y) = [''SURYA ENGINEERING COLLEGE, ERODE'', ''Event Photographs'']"
  by (auto simp: docx_document_def docx_photo_page_def pdf_ops_def photo_page_def Let_def
      drawn_texts_def draw_header_def split: prod.splits option.splits)

lemma put_in_cell_at:
  "c < length cells \<Longrightarrow>
     put_in_cell (body @ Table st (cells # rows) # rest) (length body) c r
       = body @ Table st (cells[c := cells ! c @ [r]] # rows) # rest"
  by (simp add: put_in_cell_def)

lemma photo_loop_rows:
  "even i \<Longrightarrow> docx_photo_loop e ps i row_cells body = body @ photo_rows e ps"
proof (induction e ps arbitrary: i row_cells body rule: photo_rows.induct)
  case (1 e)
  then show ?case by simp
next
  case (2 e p)
  then show ?case
    using put_in_cell_at [of 0 "[[], []]" body None "[]" "[]"]
    by (simp add: photo_cell_def photo_notices_def)
next
  case (3 e p q ps)
  let ?rp = "if docx_image_ok e p then PictureRun p 3 else EmptyRun"
  let ?rq = "if docx_image_ok e q then PictureRun q 3 else EmptyRun"
  let ?np = "photo_notices e [p]"
  let ?nq = "photo_notices e [q]"
  from 3 have i: "i mod 2 = 0" "Suc i mod 2 = 1" by presburger+
  have step1: "docx_photo_loop e (p # q # ps) i row_cells body
      = docx_photo_loop e (q # ps) (Suc i) (Some (length body)) (body @ Table None [[[?rp], []]] # ?np)"
    using i put_in_cell_at [of 0 "[[], []]" body None "[]" "[]"]
    by (simp add: photo_notices_def)
  have step2: "docx_photo_loop e (q # ps) (Suc i) (Some (length body)) (body @ Table None [[[?rp], []]] # ?np)
      = docx_photo_loop e ps (Suc (Suc i)) (Some (length body))
          ((body @ Table None [[[?rp], [?rq]]] # ?np) @ ?nq)"
    using i put_in_cell_at [of 1 "[[?rp], []]" body None "[]" ?np]
    by (simp add: photo_notices_def)
  have "even (Suc (Suc i))" using 3 by simp
  from "3.IH" [OF this] step1 step2 show ?case
    by (simp add: photo_cell_def photo_notices_def)
qed

text \<open>
  Claim C5, as the code has it: when the document can be saved the build returns whatever
  photos fail, and its photo page is the row-by-row layout \<open>photo_rows\<close>: every photo keeps
  cell \<open>i mod 2\<close> of table \<open>i div 2\<close>, the cell of a photo that cannot be added is left with
  an empty run, and the notice naming the file is a paragraph of the body after the table of
  that row, not a content of the cell.
\<close>

theorem docx_photo_failures_noted_after_row:
  assumes "save_error e path = None" and "photo_paths \<noteq> []"
  shows "\<exists>doc. build_docx e path d invitation_path photo_paths fs = Inr (path, fs(path \<mapsto> DocxFile doc)) \<and>
           doc_body doc = docx_circular_page e d invitation_path @ docx_report_page d
                          @ add_paragraph ''Event Photographs'' (Some ''Heading 1'')
                            # photo_rows e photo_paths"
  using assms
  by (intro exI [of _ "docx_document e d invitation_path photo_paths"])
     (simp add: build_docx_def docx_document_def docx_photo_page_def photo_loop_rows Let_def)

text \<open>Claim C5, witness: three photos, none of which can be added.\<close>

theorem docx_photo_failures_noted_after_row_witness:
  "\<exists>doc. build_docx no_images ''outputs/event.docx'' blank_event None
            [''uploads/a.png'', ''uploads/b.png'', ''uploads/c.png''] Map.empty
         = Inr (''outputs/event.docx'', [''outputs/event.docx'' \<mapsto> DocxFile doc]) \<and>
       drop 19 (doc_body doc) =
         [Table None [[[EmptyRun], [EmptyRun]]],
          Paragraph None [TextRun ''(Unable to add image: a.png)'' False],
          Paragraph None [TextRun ''(Unable to add image: b.png)'' False],
          Table None [[[EmptyRun], []]],
          Paragraph None [TextRun ''(Unable to add image: c.png)'' False]]"
proof -
  have "save_error no_images ''outputs/event.docx'' = None" by (simp add: no_images_def)
  from docx_photo_failures_noted_after_row [OF this, of "[''uploads/a.png'', ''uploads/b.png'', ''uploads/c.png'']"
      blank_event None Map.empty]
  obtain doc where doc: "build_docx no_images ''outputs/event.docx'' blank_event None
            [''uploads/a.png'', ''uploads/b.png'', ''uploads/c.png''] Map.empty
         = Inr (''outputs/event.docx'', [''outputs/event.docx'' \<mapsto> DocxFile doc])"
    "doc_body doc = docx_circular_page no_images blank_event None @ docx_report_page blank_event
                          @ add_paragraph ''Event Photographs'' (Some ''Heading 1'')
                            # photo_rows no_images [''uploads/a.png'', ''uploads/b.png'', ''uploads/c.png'']"
    by auto
  have "length (docx_circular_page no_images blank_event None @ docx_report_page blank_event) = 18"
    by (simp add: docx_circular_page_def invitation_blocks_def truthy_def docx_report_page_def
        docx_optional_def blank_event_def)
  then have "drop 19 (doc_body doc) = photo_rows no_images [''uploads/a.png'', ''uploads/b.png'', ''uploads/c.png'']"
    by (simp add: doc(2))
  also have "\<dots> = [Table None [[[EmptyRun], [EmptyRun]]],
          Paragraph None [TextRun ''(Unable to add image: a.png)'' False],
          Paragraph None [TextRun ''(Unable to add image: b.png)'' False],
          Table None [[[EmptyRun], []]],
          Paragraph None [TextRun ''(Unable to add image: c.png)'' False]]"
    by (simp add: photo_cell_def photo_notices_def no_images_def unable_notice_def add_paragraph_def basename_def)
  finally show ?thesis using doc(1) by blast
qed

text \<open>
  Claim C5, counterexample: with the one photo \<open>uploads/broken.png\<close>, which cannot be added,
  the cell of the photo holds no notice; the notice is the paragraph after the table.
\<close>

theorem docx_notice_not_in_cell:
  "drop 18 (doc_body (docx_document no_images blank_event None [''uploads/broken.png'']))
     = [Paragraph (Some ''Heading 1'') [TextRun ''Event Photographs'' False],
        Table None [[[EmptyRun], []]],
        Paragraph None [TextRun ''(Unable to add image: broken.png)'' False]]"
  by (simp add: docx_document_def docx_photo_page_def docx_circular_page_def docx_report_page_def
      docx_optional_def blank_event_def no_images_def put_in_cell_def unable_notice_def add_paragraph_def
      basename_def Let_def truthy_def invitation_blocks_def page_break_def)

section \<open>The text sections of the PDF\<close>

subsection \<open>Wrapping one long word\<close>

text \<open>A text of \<open>n\<close> letters \<open>a\<close> is one chunk, broken every 100 characters.\<close>

lemma plain_a:
  "\<not> is_ws CHR ''a''" "\<not> is_hyphen CHR ''a''" "\<not> py_isspace CHR ''a''" "CHR ''a'' \<noteq> CHR 0x09"
  by (simp_all add: is_ws_def is_hyphen_def py_isspace_def in_ranges_def)

lemma expandtabs_word: "expandtabs_from j (replicate n CHR ''a'') = replicate n CHR ''a''"
  by (induction n arbitrary: j) simp_all

lemma munge_word: "munge_whitespace (replicate n CHR ''a'') = replicate n CHR ''a''"
  by (simp add: munge_whitespace_def expandtabs_word plain_a)

lemma word_len_word: "word_len bef (replicate n CHR ''a'') = n"
  by (induction n arbitrary: bef) (simp_all add: hyphen_break_def plain_a emdash_ahead_def)

lemma split_word: "split_chunks (replicate (Suc n) CHR ''a'') = [replicate (Suc n) CHR ''a'']"
proof -
  have "chunk_len [] (replicate (Suc n) CHR ''a'') = Suc n"
    using word_len_word [of "[CHR ''a'']" n]
    by (simp add: chunk_len_def plain_a emdash_ahead_def)
  then have "split_from [] (replicate (Suc n) CHR ''a'') = [replicate (Suc n) CHR ''a'']"
    by (subst split_from.simps) (simp add: split_from.simps [of _ "[]"] del: replicate_Suc)
  then show ?thesis by (simp add: split_chunks_def munge_word del: replicate_Suc)
qed

lemma blank_word: "is_blank (replicate (Suc n) CHR ''a'') = False"
  by (simp add: is_blank_def plain_a)

lemma rfind_hyphen_word: "rfind_hyphen (replicate n CHR ''a'') k = None"
proof -
  have "takeWhile (\<lambda>c. \<not> is_hyphen c) (replicate m CHR ''a'') = replicate m CHR ''a''" for m
    by (induction m) (simp_all add: plain_a)
  then show ?thesis by (simp add: rfind_hyphen_def Let_def)
qed

lemma wrap_line_short_word:
  assumes "n < 100"
  shows "wrap_line 100 [replicate (Suc n) CHR ''a''] started = ([], [replicate (Suc n) CHR ''a''])"
  using assms by (simp add: wrap_line_def blank_word del: replicate_Suc)

lemma wrap_line_long_word:
  assumes "100 < Suc n"
  shows "wrap_line 100 [replicate (Suc n) CHR ''a''] started
           = ([replicate (Suc n - 100) CHR ''a''], [replicate 100 CHR ''a''])"
proof -
  have "is_blank (replicate 100 CHR ''a'') = False"
    using blank_word [of 99] by simp
  then show ?thesis
    using assms
    by (simp add: wrap_line_def blank_word handle_long_word_def rfind_hyphen_word min_def
        del: replicate_Suc)
qed

lemma wrap_loop_short_word:
  assumes "n < 100"
  shows "wrap_loop 100 [replicate (Suc n) CHR ''a''] lines = lines @ [replicate (Suc n) CHR ''a'']"
  using assms wrap_line_short_word [of n "lines \<noteq> []"]
  by (subst wrap_loop.simps) (simp add: wrap_loop.simps [of _ "[]"] del: replicate_Suc)

lemma wrap_loop_long_word:
  assumes "100 \<le> n"
  shows "wrap_loop 100 [replicate (Suc n) CHR ''a''] lines
           = wrap_loop 100 [replicate (Suc (n - 100)) CHR ''a''] (lines @ [replicate 100 CHR ''a''])"
proof -
  have "Suc n - 100 = Suc (n - 100)" using assms by simp
  with assms wrap_line_long_word [of n "lines \<noteq> []"] show ?thesis
    by (subst wrap_loop.simps) (simp del: replicate_Suc)
qed

lemma wrap_loop_word_length:
  "length (wrap_loop 100 [replicate (Suc n) CHR ''a''] lines) = length lines + Suc (n div 100)"
proof (induction n arbitrary: lines rule: less_induct)
  case (less n)
  show ?case
  proof (cases "n < 100")
    case True
    then show ?thesis by (simp add: wrap_loop_short_word del: replicate_Suc)
  next
    case False
    then have n: "100 \<le> n" by simp
    then have "n - 100 < n" by simp
    from less.IH [OF this] n show ?thesis
      by (simp add: wrap_loop_long_word le_div_geq del: replicate_Suc)
  qed
qed

lemma wrapped_word_length: "length (wrapped (replicate (Suc n) CHR ''a'')) = Suc (n div 100)"
  by (simp add: wrapped_def wrap_def wrap_chunks_def split_word wrap_loop_word_length del: replicate_Suc)

lemma wrapped_101: "wrapped (replicate 101 CHR ''a'') = [replicate 100 CHR ''a'', ''a'']"
proof -
  have n: "replicate 101 CHR ''a'' = replicate (Suc 100) CHR ''a''" by simp
  have "wrap_loop 100 [replicate (Suc 100) CHR ''a''] []
          = wrap_loop 100 [replicate (Suc 0) CHR ''a''] [replicate 100 CHR ''a'']"
    using wrap_loop_long_word [of 100 "[]"] by simp
  also have "\<dots> = [replicate 100 CHR ''a'', ''a'']"
    using wrap_loop_short_word [of 0 "[replicate 100 CHR ''a'']"] by simp
  finally have "wrap_loop 100 (split_chunks (replicate (Suc 100) CHR ''a'')) []
                  = [replicate 100 CHR ''a'', ''a'']"
    by (simp only: split_word)
  then show ?thesis
    unfolding n by (simp add: wrapped_def wrap_def wrap_chunks_def del: replicate_Suc)
qed

lemma wrapped_x: "wrapped ''x'' = [''x'']"
  by code_simp

subsection \<open>The line loop\<close>

lemma page_h_margin: "120 \<le> page_h - 120"
  by (simp add: page_h_def)

lemma next_line_y_above: "120 \<le> next_line_y y"
  using page_h_margin by (simp add: next_line_y_def)

lemma draw_lines_trace:
  "\<exists>ys. length ys = length ls \<and>
        fst (draw_lines e ls y) = concat (map (line_ops e) (zip ls ys)) \<and>
        (ys \<noteq> [] \<longrightarrow> hd ys = y \<and> snd (draw_lines e ls y) = next_line_y (last ys)) \<and>
        (ys = [] \<longrightarrow> snd (draw_lines e ls y) = y) \<and>
        (\<forall>i. Suc i < length ys \<longrightarrow> ys ! Suc i = next_line_y (ys ! i))"
proof (induction ls arbitrary: y)
  case Nil
  show ?case by simp
next
  case (Cons l ls)
  from Cons.IH [of "next_line_y y"] obtain ys where ys: "length ys = length ls"
    "fst (draw_lines e ls (next_line_y y)) = concat (map (line_ops e) (zip ls ys))"
    "ys \<noteq> [] \<longrightarrow> hd ys = next_line_y y \<and> snd (draw_lines e ls (next_line_y y)) = next_line_y (last ys)"
    "ys = [] \<longrightarrow> snd (draw_lines e ls (next_line_y y)) = next_line_y y"
    "\<forall>i. Suc i < length ys \<longrightarrow> ys ! Suc i = next_line_y (ys ! i)"
    by blast
  have step: "draw_lines e (l # ls) y
      = (line_ops e (l, y) @ fst (draw_lines e ls (next_line_y y)), snd (draw_lines e ls (next_line_y y)))"
    by (simp add: line_ops_def next_line_y_def Let_def split: prod.splits)
  have rec: "\<forall>i. Suc i < length (y # ys) \<longrightarrow> (y # ys) ! Suc i = next_line_y ((y # ys) ! i)"
  proof (intro allI impI)
    fix i assume i: "Suc i < length (y # ys)"
    show "(y # ys) ! Suc i = next_line_y ((y # ys) ! i)"
    proof (cases i)
      case 0
      with i ys(3) show ?thesis by (cases ys) auto
    next
      case (Suc j)
      with i ys(5) show ?thesis by simp
    qed
  qed
  show ?case
  proof (intro exI [of _ "y # ys"] conjI)
    show "length (y # ys) = length (l # ls)" using ys(1) by simp
    show "fst (draw_lines e (l # ls) y) = concat (map (line_ops e) (zip (l # ls) (y # ys)))"
      using ys(2) by (simp add: step del: draw_lines.simps)
    show "y # ys \<noteq> [] \<longrightarrow> hd (y # ys) = y \<and> snd (draw_lines e (l # ls) y) = next_line_y (last (y # ys))"
      using ys(3,4) by (simp add: step del: draw_lines.simps)
    show "y # ys = [] \<longrightarrow> snd (draw_lines e (l # ls) y) = y" by simp
    show "\<forall>i. Suc i < length (y # ys) \<longrightarrow> (y # ys) ! Suc i = next_line_y ((y # ys) ! i)" by (rule rec)
  qed
qed

text \<open>
  Claim C2, as the code has it: every text section of the PDF (overview, day 1, day 2, learning
  outcomes, conclusion) draws its heading at \<open>y - 8\<close> and its wrapped lines from \<open>y - 24\<close> on;
  after each line is drawn the cursor is lowered by 14pt and, when it is then below the bottom
  margin of 120pt, a page break is emitted, the header redrawn and the cursor reset to the
  fixed offset \<open>h - 120\<close>.  The check runs in the line loop of every section, so every line
  of a section after its first is drawn at 120pt or above, and the section leaves the cursor
  at 120pt or above.
\<close>

theorem text_section_breaks_after_lines:
  assumes "text_section e heading text y = (ops, y')"
  shows "\<exists>ys. length ys = length (wrapped text) \<and>
           ops = [SetFont ''Helvetica-Bold'' 11, DrawString 50 (y - 8) heading, SetFont ''Helvetica'' 10]
                 @ concat (map (line_ops e) (zip (wrapped text) ys)) \<and>
           (ys \<noteq> [] \<longrightarrow> hd ys = y - 8 - 16 \<and> y' = next_line_y (last ys) \<and> 120 \<le> y') \<and>
           (\<forall>i. Suc i < length ys \<longrightarrow> ys ! Suc i = next_line_y (ys ! i)) \<and>
           (\<forall>yl\<in>set (tl ys). 120 \<le> yl)"
proof -
  from draw_lines_trace [of "wrapped text" e "y - 8 - 16"] obtain ys where ys:
    "length ys = length (wrapped text)"
    "fst (draw_lines e (wrapped text) (y - 8 - 16)) = concat (map (line_ops e) (zip (wrapped text) ys))"
    "ys \<noteq> [] \<longrightarrow> hd ys = y - 8 - 16 \<and> snd (draw_lines e (wrapped text) (y - 8 - 16)) = next_line_y (last ys)"
    "\<forall>i. Suc i < length ys \<longrightarrow> ys ! Suc i = next_line_y (ys ! i)"
    by blast
  from assms have ops: "ops = [SetFont ''Helvetica-Bold'' 11, DrawString 50 (y - 8) heading, SetFont ''Helvetica'' 10]
                 @ fst (draw_lines e (wrapped text) (y - 8 - 16))"
    and y': "y' = snd (draw_lines e (wrapped text) (y - 8 - 16))"
    by (auto simp: text_section_def Let_def split: prod.splits)
  have above: "\<forall>yl\<in>set (tl ys). 120 \<le> yl"
  proof
    fix yl assume "yl \<in> set (tl ys)"
    then obtain j where j: "j < length (tl ys)" "yl = tl ys ! j" by (auto simp: in_set_conv_nth)
    then have "Suc j < length ys" by simp
    with ys(4) j have "yl = next_line_y (ys ! j)" by (simp add: nth_tl)
    then show "120 \<le> yl" by (simp add: next_line_y_above)
  qed
  show ?thesis
    using ys ops y' above next_line_y_above by (intro exI [of _ ys]) simp
qed


text \<open>
  Claim C2, witness: a section of two lines started at 150pt; the first line is drawn at 126pt,
  a page break follows it, and the second line is drawn at \<open>h - 120\<close>.
\<close>

theorem text_section_breaks_after_lines_witness:
  "\<exists>ys. length ys = 2 \<and> hd ys = 126 \<and> ys ! 1 = page_h - 120 \<and> (\<forall>yl\<in>set (tl ys). 120 \<le> yl) \<and>
        fst (text_section no_images ''Conclusion:'' (replicate 101 CHR ''a'') 150)
          = [SetFont ''Helvetica-Bold'' 11, DrawString 50 142 ''Conclusion:'', SetFont ''Helvetica'' 10]
            @ concat (map (line_ops no_images) (zip [replicate 100 CHR ''a'', ''a''] ys))"
proof -
  let ?t = "text_section no_images ''Conclusion:'' (replicate 101 CHR ''a'') 150"
  from text_section_breaks_after_lines [of no_images "''Conclusion:''" "replicate 101 CHR ''a''" 150 "fst ?t" "snd ?t"]
  obtain ys where ys: "length ys = length (wrapped (replicate 101 CHR ''a''))"
    "fst ?t = [SetFont ''Helvetica-Bold'' 11, DrawString 50 (150 - 8) ''Conclusion:'', SetFont ''Helvetica'' 10]
                 @ concat (map (line_ops no_images) (zip (wrapped (replicate 101 CHR ''a'')) ys))"
    "ys \<noteq> [] \<longrightarrow> hd ys = 150 - 8 - 16"
    "\<forall>i. Suc i < length ys \<longrightarrow> ys ! Suc i = next_line_y (ys ! i)"
    "\<forall>yl\<in>set (tl ys). 120 \<le> yl"
    by auto
  from ys(1) have len: "length ys = 2" by (simp add: wrapped_101)
  then have ne: "ys \<noteq> []" by auto
  with ys(3) have h: "hd ys = 126" by simp
  with ne have "ys ! 0 = 126" by (simp add: hd_conv_nth)
  with ys(4) len have "ys ! 1 = next_line_y 126" by auto
  then have "ys ! 1 = page_h - 120" by (simp add: next_line_y_def)
  with len h ys(2,5) show ?thesis
    by (intro exI [of _ ys]) (simp add: wrapped_101)
qed

subsection \<open>A first line below the margin\<close>

lemma draw_lines_no_break:
  "120 \<le> y - 14 * of_nat (length ls) \<Longrightarrow> snd (draw_lines e ls y) = y - 14 * of_nat (length ls)"
proof (induction ls arbitrary: y)
  case Nil
  then show ?case by simp
next
  case (Cons l ls)
  from Cons.prems have a: "\<not> y - 14 < 120" and b: "120 \<le> (y - 14) - 14 * of_nat (length ls)"
    by (simp_all add: algebra_simps)
  from a have "snd (draw_lines e (l # ls) y) = snd (draw_lines e ls (y - 14))"
    by (simp add: Let_def case_prod_beta)
  also have "\<dots> = (y - 14) - 14 * of_nat (length ls)" by (rule Cons.IH [OF b])
  finally show ?case by (simp add: algebra_simps)
qed

lemma snd_text_section:
  "snd (text_section e heading text y) = snd (draw_lines e (wrapped text) (y - 8 - 16))"
  by (simp add: text_section_def Let_def split: prod.splits)

lemma fst_text_section:
  "fst (text_section e heading text y)
     = [SetFont ''Helvetica-Bold'' 11, DrawString 50 (y - 8) heading, SetFont ''Helvetica'' 10]
       @ fst (draw_lines e (wrapped text) (y - 8 - 16))"
  by (simp add: text_section_def Let_def split: prod.splits)

lemma snd_draw_fields: "snd (draw_fields Ls y) = y - 16 * of_nat (length Ls)"
proof (induction Ls arbitrary: y)
  case Nil
  show ?case by simp
next
  case (Cons L Ls)
  have "snd (draw_fields (L # Ls) y) = snd (draw_fields Ls (y - 16))"
    by (simp add: case_prod_beta)
  also have "\<dots> = (y - 16) - 16 * of_nat (length Ls)" by (rule Cons.IH)
  finally show ?case by (simp add: algebra_simps)
qed

lemma report_page_day1:
  "set (fst (optional_section e ''Day 1: Fundamentals and Demonstrations'' (day1 d)
          (snd (text_section e ''Workshop Overview:'' (overview d) (page_h - 170 - 16 * 5)))))
     \<subseteq> set (fst (report_page e d))"
  unfolding report_page_def Let_def case_prod_beta
  by (simp add: snd_draw_fields) blast

lemma pdf_ops_report: "set (fst (report_page e d)) \<subseteq> set (pdf_ops e d invitation_path photo_paths)"
  by (auto simp: pdf_ops_def case_prod_beta)

text \<open>
  Claim C2, counterexample: with an overview of 3001 letters (31 lines, which leave the cursor
  at about 133.9pt without a page break) and the day-1 text \<open>x\<close>, the line \<open>x\<close> is drawn at
  \<open>13956 / 127\<close>, about 109.9pt: below the bottom margin of 120pt, and with no check before
  it is drawn.
\<close>

theorem first_line_of_section_below_margin:
  "DrawString 50 (13956 / 127) ''x''
     \<in> set (pdf_ops no_images (blank_event\<lparr>overview := replicate 3001 CHR ''a'', day1 := ''x''\<rparr>) None []) \<and>
   (13956 / 127 :: rat) < 120"
proof -
  let ?d = "blank_event\<lparr>overview := replicate 3001 CHR ''a'', day1 := ''x''\<rparr>"
  have "replicate 3001 CHR ''a'' = replicate (Suc 3000) CHR ''a''" by simp
  then have len: "length (wrapped (replicate 3001 CHR ''a'')) = 31"
    using wrapped_word_length [of 3000] by (simp del: replicate_Suc)
  have "snd (text_section no_images ''Workshop Overview:'' (overview ?d) (page_h - 170 - 16 * 5))
          = page_h - 170 - 16 * 5 - 8 - 16 - 14 * of_nat (length (wrapped (overview ?d)))"
    unfolding snd_text_section by (rule draw_lines_no_break) (simp add: len page_h_def)
  then have y1: "snd (text_section no_images ''Workshop Overview:'' (overview ?d) (page_h - 170 - 16 * 5))
          = page_h - 708"
    by (simp add: len)
  have "page_h - 708 - 8 - 16 = (13956 / 127 :: rat)" by (simp add: page_h_def)
  then have "DrawString 50 (13956 / 127) ''x''
     \<in> set (fst (optional_section no_images ''Day 1: Fundamentals and Demonstrations'' (day1 ?d) (page_h - 708)))"
    by (simp add: optional_section_def fst_text_section wrapped_x Let_def split: prod.splits)
  with report_page_day1 [of no_images ?d] pdf_ops_report [of no_images ?d None "[]"] y1
  show ?thesis by auto
qed

section \<open>The photo grid of the PDF\<close>

lemma photos_drawn_append [simp]: "photos_drawn (a @ b) = photos_drawn a @ photos_drawn b"
  by (simp add: photos_drawn_def)

lemma photos_drawn_header [simp]: "photos_drawn (draw_header e) = []"
  by (auto simp: photos_drawn_def draw_header_def split: option.splits)

lemma photos_drawn_place:
  "col < 2 \<Longrightarrow> p \<noteq> logo_path \<Longrightarrow>
     photos_drawn (fst (place_photo e p col row y ys)) = (if placeable e p then [p] else [])"
  by (auto simp: place_photo_def placeable_def photos_drawn_def x_positions_def Let_def
      split: option.splits)

lemma grid_step_cases:
  "col < 2 \<Longrightarrow>
     grid_step e p (col, row, y, ys) =
       (let (img, y1) = place_photo e p col row y ys
        in if col = 0 then (img, (1, row, y1, ys))
           else if y1 - 120 < 120 then (img @ ShowPage # draw_header e, (0, 0, y1, page_h - 160))
           else (img, (0, row + 1, y1, ys)))"
  by (auto simp: grid_step_def row_h_def Let_def split: prod.splits)

lemma grid_step_col:
  assumes "col < 2"
  shows "fst (snd (grid_step e p (col, row, y, ys))) = (col + 1) mod 2"
proof (cases "col = 0")
  case True
  then show ?thesis by (simp add: grid_step_def case_prod_beta)
next
  case False
  with assms have "col = 1" by simp
  then show ?thesis by (simp add: grid_step_def case_prod_beta)
qed

lemma grid_step_drawn:
  assumes "col < 2" and "p \<noteq> logo_path"
  shows "photos_drawn (fst (grid_step e p (col, row, y, ys))) = (if placeable e p then [p] else [])"
proof -
  obtain img y1 where pl: "place_photo e p col row y ys = (img, y1)"
    by (cases "place_photo e p col row y ys") auto
  with photos_drawn_place [OF assms, of e row y ys]
  have img: "photos_drawn img = (if placeable e p then [p] else [])" by simp
  have "photos_drawn (ShowPage # draw_header e) = []"
    using photos_drawn_header [of e] by (simp add: photos_drawn_def)
  then have brk: "photos_drawn (img @ ShowPage # draw_header e) = photos_drawn img"
    by (simp only: photos_drawn_append append_Nil2)
  have "fst (grid_step e p (col, row, y, ys)) = img \<or>
        fst (grid_step e p (col, row, y, ys)) = img @ ShowPage # draw_header e"
    unfolding grid_step_cases [OF assms(1)] pl by simp
  with img brk show ?thesis by auto
qed

lemma photo_grid_run:
  "col < 2 \<Longrightarrow> logo_path \<notin> set ps \<Longrightarrow>
     fst (snd (photo_grid e ps (col, row, y, ys))) = (col + length ps) mod 2 \<and>
     photos_drawn (fst (photo_grid e ps (col, row, y, ys))) = filter (placeable e) ps"
proof (induction ps arbitrary: col row y ys)
  case Nil
  then show ?case by (simp add: photos_drawn_def)
next
  case (Cons p ps)
  obtain ops1 col1 row1 y1 ys1 where s: "grid_step e p (col, row, y, ys) = (ops1, col1, row1, y1, ys1)"
    by (cases "grid_step e p (col, row, y, ys)") auto
  from grid_step_col [OF Cons.prems(1), of e p row y ys] s have c1: "col1 = (col + 1) mod 2" by simp
  then have "col1 < 2" by simp
  moreover from Cons.prems(2) have "logo_path \<notin> set ps" and pl: "p \<noteq> logo_path" by auto
  ultimately have IH: "fst (snd (photo_grid e ps (col1, row1, y1, ys1))) = (col1 + length ps) mod 2"
    "photos_drawn (fst (photo_grid e ps (col1, row1, y1, ys1))) = filter (placeable e) ps"
    using Cons.IH [of col1 row1 y1 ys1] by simp_all
  from grid_step_drawn [OF Cons.prems(1) pl, of e row y ys] s
  have d: "photos_drawn ops1 = (if placeable e p then [p] else [])" by simp
  have "(col1 + length ps) mod 2 = (col + length (p # ps)) mod 2"
    unfolding c1 by (simp add: mod_simps)
  with IH d s show ?case by (simp add: case_prod_beta)
qed

lemma place_photo_undecodable: "image_size e p = None \<Longrightarrow> place_photo e p col row y ys = ([], y)"
  by (simp add: place_photo_def)

text \<open>
  What holds of the grid loop whatever the photos are: the column index after the whole list
  is the parity of the number of photos, whether or not they load, and the photos drawn are
  exactly those that load, in order.
\<close>

lemma photo_grid_advance_and_skip:
  assumes "logo_path \<notin> set photo_paths"
    and "photo_grid e photo_paths (0, 0, y, page_h - 160) = (ops, col', row', y', y_start')"
  shows "col' = length photo_paths mod 2 \<and> photos_drawn ops = filter (placeable e) photo_paths"
  using photo_grid_run [of 0 photo_paths e 0 y "page_h - 160"] assms by simp

text \<open>
  The test \<open>y - row_h < 120\<close> reads whatever \<open>y\<close> holds.  When the photos of a row do not
  load, that is the cursor of an earlier placement or of the report page: with \<open>y\<close> at 130pt
  a row in which nothing was drawn starts a new page.
\<close>

lemma photo_grid_break_on_stale_cursor:
  "grid_step no_images ''uploads/gone.png'' (1, 0, 130, page_h - 160)
     = (ShowPage # draw_header no_images, (0, 0, 130, page_h - 160))"
  by (simp add: grid_step_def place_photo_def no_images_def row_h_def)

lemma wrapped_empty: "wrapped [] = []"
  by code_simp

lemma report_cursor_blank: "snd (report_page e blank_event) = 72122 / 127"
  by (simp add: report_page_def case_prod_beta snd_draw_fields snd_text_section optional_section_def
      blank_event_def wrapped_empty page_h_def)

text \<open>
  Claim C3, at eight photos of 1000 by 10 pixels followed by a ninth of 100 by 100.  The
  photo page has no page break: the ninth photo is drawn in a fifth row at \<open>240 / 127\<close>,
  about 1.9pt, far below the bottom margin of 120pt, although the claim has a new page
  started when the next row would fall below the margin.  The test after the fourth row,
  \<open>y - row_h < 120\<close>, reads the bottom edge of the image drawn last, here a thin one, and not
  the position of the next row.  With nine square photos, at the same column and row
  indices, the page is started.
\<close>

theorem photo_row_below_margin_without_break:
  "photo_page two_images (replicate 8 ''uploads/flat.png'' @ [''uploads/square.png''])
       (snd (report_page two_images blank_event))
     = [SetFont ''Helvetica-Bold'' 12,
        DrawCentredString (37800 / 127) (94855 / 127) ''SURYA ENGINEERING COLLEGE, ERODE'',
        SetFont ''Helvetica-Bold'' 13,
        DrawCentredString (37800 / 127) (91680 / 127) ''Event Photographs'',
        DrawInlineImage ''uploads/flat.png'' 50 (431491 / 635) (30180 / 127) (1509 / 635),
        DrawInlineImage ''uploads/flat.png'' (39070 / 127) (431491 / 635) (30180 / 127) (1509 / 635),
        DrawInlineImage ''uploads/flat.png'' 50 (342591 / 635) (30180 / 127) (1509 / 635),
        DrawInlineImage ''uploads/flat.png'' (39070 / 127) (342591 / 635) (30180 / 127) (1509 / 635),
        DrawInlineImage ''uploads/flat.png'' 50 (253691 / 635) (30180 / 127) (1509 / 635),
        DrawInlineImage ''uploads/flat.png'' (39070 / 127) (253691 / 635) (30180 / 127) (1509 / 635),
        DrawInlineImage ''uploads/flat.png'' 50 (164791 / 635) (30180 / 127) (1509 / 635),
        DrawInlineImage ''uploads/flat.png'' (39070 / 127) (164791 / 635) (30180 / 127) (1509 / 635),
        DrawInlineImage ''uploads/square.png'' (13820 / 127) (240 / 127) 120 120] \<and>
   (240 / 127 :: rat) < 120 \<and>
   ShowPage \<in> set (photo_page two_images (replicate 9 ''uploads/square.png'')
                     (snd (report_page two_images blank_event)))"
  unfolding report_cursor_blank
  by (simp add: photo_page_def draw_header_def logo_path_def grid_step_def place_photo_def two_images_def
      col_w_def row_h_def x_positions_def page_w_def page_h_def Let_def numeral_eq_Suc)

end
